theory Spec2Isabelle
  imports Complex_Main "HOL-Library.Char_ord" "HOL-Library.List_Lexorder" "HOL-Library.Multiset"
begin

unbundle bit_operations_syntax

section \<open>Python values\<close>

text \<open>
  The simulator is Python: its integers are unbounded (\<open>int\<close>), \<open>//\<close> and \<open>%\<close> round
  towards minus infinity as \<open>div\<close> and \<open>mod\<close> do, and a failing operation raises.
  Every exception the modelled code can raise is a value of \<open>error\<close>; a computation
  that may raise returns \<open>error + 'a\<close> with the exception on the left.
\<close>

datatype error =
  ZeroDivisionError | ValueError | IndexError | KeyError | NameError | OverflowError

fun and_then :: "error + 'a \<Rightarrow> ('a \<Rightarrow> error + 'b) \<Rightarrow> error + 'b" where
  "and_then (Inl e) f = Inl e"
| "and_then (Inr x) f = f x"

text \<open>\<open>xs[i]\<close>: a negative index counts from the end, anything out of range raises.\<close>

definition py_index :: "'a list \<Rightarrow> int \<Rightarrow> error + 'a" where
  "py_index xs i =
     (if 0 \<le> i \<and> i < int (length xs) then Inr (xs ! nat i)
      else if - int (length xs) \<le> i \<and> i < 0 then Inr (xs ! nat (int (length xs) + i))
      else Inl IndexError)"

text \<open>\<open>xs[i:j]\<close>: both bounds are wrapped when negative and then clamped to the list.\<close>

definition py_bound :: "'a list \<Rightarrow> int \<Rightarrow> nat" where
  "py_bound xs i =
     (if i < 0 then nat (max 0 (int (length xs) + i)) else nat (min i (int (length xs))))"

definition py_slice :: "'a list \<Rightarrow> int \<Rightarrow> int \<Rightarrow> 'a list" where
  "py_slice xs i j = take (py_bound xs j - py_bound xs i) (drop (py_bound xs i) xs)"

text \<open>\<open>x << n\<close> raises \<open>ValueError\<close> (negative shift count) when \<open>n < 0\<close>.\<close>

definition py_shl :: "int \<Rightarrow> int \<Rightarrow> error + int" where
  "py_shl x n = (if n < 0 then Inl ValueError else Inr (push_bit (nat n) x))"

text \<open>
  A Python float is an IEEE 754 binary64 number, kept here as the real number it stands
  for. An operation on floats returns the float nearest to the exact result, a tie going
  to the neighbour with the even significand; \<open>nearest_double\<close> is this rounding, with
  \<open>None\<close> for a result that overflows to an infinity. \<open>floor_log2\<close> is the position of the
  leading binary digit of a positive integer, \<open>binary_exponent x\<close> the \<open>e\<close> with
  \<open>2^e \<le> x < 2^(e + 1)\<close> for a positive \<open>x\<close>; a number with this exponent is rounded to a
  multiple of \<open>2^(e - 52)\<close>, and below the normal range (\<open>e < - 1022\<close>) to a multiple of
  \<open>2^(- 1074)\<close>.
\<close>

function floor_log2 :: "int \<Rightarrow> int" where
  "floor_log2 n = (if n < 2 then 0 else 1 + floor_log2 (n div 2))"
  by pat_completeness auto
termination
  by (relation "measure nat") auto

declare floor_log2.simps [simp del]

definition pow2 :: "int \<Rightarrow> real" where
  "pow2 k = (if 0 \<le> k then 2 ^ nat k else 1 / 2 ^ nat (- k))"

definition binary_exponent :: "real \<Rightarrow> int" where
  "binary_exponent x =
     (if 1 \<le> x then floor_log2 \<lfloor>x\<rfloor> else - floor_log2 (\<lceil>1 / x\<rceil> - 1) - 1)"

definition round_half_even :: "real \<Rightarrow> int" where
  "round_half_even x =
     (if x - of_int \<lfloor>x\<rfloor> < 1 / 2 then \<lfloor>x\<rfloor>
      else if 1 / 2 < x - of_int \<lfloor>x\<rfloor> then \<lfloor>x\<rfloor> + 1
      else if even \<lfloor>x\<rfloor> then \<lfloor>x\<rfloor> else \<lfloor>x\<rfloor> + 1)"

definition nearest_double :: "real \<Rightarrow> real option" where
  "nearest_double x =
     (if x = 0 then Some 0
      else
        let ulp = pow2 (max (binary_exponent \<bar>x\<bar>) (- 1022) - 52);
            y = of_int (round_half_even (\<bar>x\<bar> / ulp)) * ulp
        in if pow2 1024 \<le> y then None else Some (sgn x * y))"

text \<open>\<open>int(q)\<close> for a float \<open>q\<close>: the integer part, rounding towards zero; it raises
  \<open>OverflowError\<close> for an infinity.\<close>

definition py_int :: "real option \<Rightarrow> error + int" where
  "py_int q =
     (case q of
        None \<Rightarrow> Inl OverflowError
      | Some v \<Rightarrow> Inr (if 0 \<le> v then \<lfloor>v\<rfloor> else \<lceil>v\<rceil>))"

text \<open>\<open>bin(x).count('1')\<close>: the number of one digits of \<open>|x|\<close> (the sign is a separate
  character of the string).\<close>

function bitcount :: "nat \<Rightarrow> nat" where
  "bitcount n = (if n = 0 then 0 else n mod 2 + bitcount (n div 2))"
  by pat_completeness auto
termination
  by (relation "measure id") auto

declare bitcount.simps [simp del]

definition count_ones :: "int \<Rightarrow> nat" where
  "count_ones x = bitcount (nat \<bar>x\<bar>)"

text \<open>\<open>bin(x)[2:]\<close>: the binary digits of \<open>|x|\<close>, most significant first; for a negative
  \<open>x\<close> the string \<open>bin(x)\<close> is \<open>-0b...\<close>, so dropping two characters leaves a \<open>b\<close> in front.\<close>

function bits_of :: "nat \<Rightarrow> string" where
  "bits_of n =
     (if n < 2 then [if n = 0 then CHR ''0'' else CHR ''1'']
      else bits_of (n div 2) @ [if n mod 2 = 0 then CHR ''0'' else CHR ''1''])"
  by pat_completeness auto
termination
  by (relation "measure id") auto

declare bits_of.simps [simp del]

definition bin_tail :: "int \<Rightarrow> string" where
  "bin_tail x = (if x < 0 then CHR ''b'' # bits_of (nat (- x)) else bits_of (nat x))"

text \<open>\<open>s.zfill(w)\<close>: zeros are inserted on the left, after a leading sign if there is one.\<close>

definition zfill :: "nat \<Rightarrow> string \<Rightarrow> string" where
  "zfill w s =
     (case s of
        [] \<Rightarrow> replicate w (CHR ''0'')
      | c # cs \<Rightarrow>
          if c = CHR ''+'' \<or> c = CHR ''-''
          then c # replicate (w - length s) (CHR ''0'') @ cs
          else replicate (w - length s) (CHR ''0'') @ s)"

text \<open>\<open>s.startswith(p)\<close>.\<close>

fun startswith :: "string \<Rightarrow> string \<Rightarrow> bool" where
  "startswith s [] = True"
| "startswith [] (p # ps) = False"
| "startswith (c # cs) (p # ps) = (c = p \<and> startswith cs ps)"

text \<open>A list of computations is run from left to right and stops at the first exception.\<close>

fun collect :: "(error + 'a) list \<Rightarrow> error + 'a list" where
  "collect [] = Inr []"
| "collect (Inl e # rs) = Inl e"
| "collect (Inr x # rs) = (case collect rs of Inl e \<Rightarrow> Inl e | Inr xs \<Rightarrow> Inr (x # xs))"

section \<open>framework.py: the data exchanged between kernel and protocol\<close>

datatype PacketType = IDLE | COLLISION | SUCCESS | QUERY | ACK

text \<open>
  \<open>class Tag\<close>. The constructor stores \<open>epc_int = int(epc, 16)\<close>; the protocol computes
  \<open>int(t.epc, 16)\<close> again where it needs the value, which the model reads from \<open>epc_int\<close>.
  \<open>rssi\<close> is a float drawn once at construction; the model keeps it as a real number.
\<close>

record Tag =
  epc :: string
  epc_int :: int
  is_present :: bool
  rssi :: real

text \<open>\<open>ReaderCommand\<close> (the field \<open>meta_data\<close>, which neither the kernel nor the flagship
  protocol reads, is left out).\<close>

record ReaderCommand =
  payload_bits :: int
  expected_reply_bits :: int
  response_protocol :: "Tag \<Rightarrow> bool"
  concatenated_tags_count :: int

text \<open>\<open>SlotResult\<close>; \<open>extra_info\<close> is \<open>None\<close> or the dictionary
  \<open>{'erasure': mask, 'shift': offset}\<close>, kept as a pair.\<close>

record SlotResult =
  status :: PacketType
  tag_ids :: "string list"
  resolved_data :: "string list option"
  channel_noise_mask :: int
  extra_info :: "(int \<times> int) option"

section \<open>lods\_mti\_algo.py: the flagship protocol\<close>

text \<open>An entry of \<open>sorted_tags_bin\<close> is the dictionary with the keys \<open>hex\<close>, \<open>bin\<close>,
  \<open>int\<close>; an entry of \<open>last_sent_context\<close> is the one with the keys \<open>epc\<close>, \<open>slot\<close>,
  \<open>rho\<close>.\<close>

record entry =
  e_hex :: string
  e_bin :: string
  e_int :: int

record ctx_item =
  c_epc :: string
  c_slot :: int
  c_rho :: int

record lods =
  max_group_size :: int
  target_rho :: int
  is_adaptive :: bool
  max_payload_bit :: int
  current_rho :: int
  sorted_tags_bin :: "entry list"
  total_tags :: int
  cursor :: int
  is_running :: bool
  last_sent_context :: "ctx_item list"
  verified_present :: "string set"
  verified_missing :: "string set"

text \<open>\<open>__init__\<close> with its four parameters.\<close>

definition LODS_MTI_Algorithm :: "int \<Rightarrow> int \<Rightarrow> bool \<Rightarrow> int \<Rightarrow> lods" where
  "LODS_MTI_Algorithm mgs trho adaptive mpb =
     \<lparr> max_group_size = mgs, target_rho = trho, is_adaptive = adaptive,
       max_payload_bit = mpb,
       current_rho = (if adaptive then 4 else trho),
       sorted_tags_bin = [], total_tags = 0, cursor = 0, is_running = True,
       last_sent_context = [], verified_present = {}, verified_missing = {} \<rparr>"

definition tag_bin :: "Tag \<Rightarrow> string" where
  "tag_bin t = zfill 96 (bin_tail (epc_int t))"

definition initialize :: "lods \<Rightarrow> Tag list \<Rightarrow> lods" where
  "initialize s expected_tags =
     (let temp_list = map (\<lambda>t. \<lparr> e_hex = epc t, e_bin = tag_bin t, e_int = epc_int t \<rparr>)
                          expected_tags;
          sorted_list = sort_key e_bin temp_list
      in s \<lparr> sorted_tags_bin := sorted_list,
             total_tags := int (length sorted_list),
             cursor := 0, is_running := True,
             verified_present := {}, verified_missing := {},
             last_sent_context := [],
             current_rho := (if is_adaptive s then 4 else target_rho s) \<rparr>)"

text \<open>\<open>_get_lcp\<close>: the longest common prefix of two strings.\<close>

fun get_lcp :: "string \<Rightarrow> string \<Rightarrow> string" where
  "get_lcp (a # as) (b # bs) = (if a \<noteq> b then [] else a # get_lcp as bs)"
| "get_lcp [] bs = []"
| "get_lcp (a # as) [] = []"

text \<open>
  \<open>_find_dynamic_slice\<close>. The \<open>for k in range(limit_k, 0, -1)\<close> loop is \<open>slice_loop\<close>,
  counting \<open>k\<close> down; when it runs out it falls through to the last \<open>return\<close>.
\<close>

function slice_loop :: "entry list \<Rightarrow> int \<Rightarrow> int \<Rightarrow> error + (int \<times> string)" where
  "slice_loop tags start_idx k =
     (if k \<le> 0 then
        (case py_index tags start_idx of
           Inl e \<Rightarrow> Inl e
         | Inr first \<Rightarrow> Inr (1, e_bin first))
      else
        (case py_index tags start_idx of
           Inl e \<Rightarrow> Inl e
         | Inr tag_first \<Rightarrow>
        (case py_index tags (start_idx + k - 1) of
           Inl e \<Rightarrow> Inl e
         | Inr tag_last \<Rightarrow>
        (case py_index tags (start_idx + k) of
           Inl e \<Rightarrow> Inl e
         | Inr tag_outside \<Rightarrow>
             if startswith (e_bin tag_outside) (get_lcp (e_bin tag_first) (e_bin tag_last))
             then slice_loop tags start_idx (k - 1)
             else Inr (k, get_lcp (e_bin tag_first) (e_bin tag_last))))))"
  by pat_completeness auto
termination
  by (relation "measure (\<lambda>(tags, start_idx, k). nat k)") auto

declare slice_loop.simps [simp del]

definition find_dynamic_slice :: "lods \<Rightarrow> int \<Rightarrow> int option \<Rightarrow> error + (int \<times> string)" where
  "find_dynamic_slice s start_idx limit_k_override =
     (let remaining = total_tags s - start_idx in
      if remaining = 0 then Inr (0, [])
      else
        let limit_k = (case limit_k_override of
                         None \<Rightarrow> min (max_group_size s) remaining
                       | Some l \<Rightarrow> min (min (max_group_size s) remaining) l)
        in
          if start_idx + limit_k \<ge> total_tags s then
            (case py_index (sorted_tags_bin s) start_idx of
               Inl e \<Rightarrow> Inl e
             | Inr group_first \<Rightarrow>
            (case py_index (sorted_tags_bin s) (start_idx + limit_k - 1) of
               Inl e \<Rightarrow> Inl e
             | Inr group_last \<Rightarrow>
                 Inr (limit_k, get_lcp (e_bin group_first) (e_bin group_last))))
          else slice_loop (sorted_tags_bin s) start_idx limit_k)"

text \<open>
  \<open>_find_perfect_seed\<close>. \<open>seed_collides\<close> is the inner loop over the values with the
  set \<open>slots\<close> of sub-slots taken so far; \<open>try_seeds\<close> is the outer loop over
  \<open>range(16)\<close>. \<open>%\<close> raises when the modulus is zero.
\<close>

fun seed_collides :: "int \<Rightarrow> int \<Rightarrow> int list \<Rightarrow> int set \<Rightarrow> error + bool" where
  "seed_collides seed mod_size [] slots = Inr False"
| "seed_collides seed mod_size (val # vals) slots =
     (if mod_size = 0 then Inl ZeroDivisionError
      else if (val XOR seed) mod mod_size \<in> slots then Inr True
      else seed_collides seed mod_size vals (insert ((val XOR seed) mod mod_size) slots))"

fun try_seeds :: "int list \<Rightarrow> int list \<Rightarrow> int \<Rightarrow> error + int option" where
  "try_seeds [] epc_ints mod_size = Inr None"
| "try_seeds (seed # seeds) epc_ints mod_size =
     (case seed_collides seed mod_size epc_ints {} of
        Inl e \<Rightarrow> Inl e
      | Inr collision \<Rightarrow>
          if \<not> collision then Inr (Some seed) else try_seeds seeds epc_ints mod_size)"

definition find_perfect_seed :: "int list \<Rightarrow> int \<Rightarrow> error + int option" where
  "find_perfect_seed epc_ints mod_size = try_seeds [0..15] epc_ints mod_size"

text \<open>
  \<open>get_next_command\<close>, phase 1 (verification and adaptation). \<open>expected_mask\<close> is the
  pattern \<open>((1 << rho) - 1) << (slot * rho)\<close> that both loops of the phase compute;
  \<open>superimpose\<close> is the first loop, which ORs the patterns of the responding tags of the
  context into \<open>ideal_superimposed_bitmap\<close>.
\<close>

definition expected_mask :: "int \<Rightarrow> int \<Rightarrow> error + int" where
  "expected_mask slot rho =
     and_then (py_shl 1 rho) (\<lambda>one. py_shl (one - 1) (slot * rho))"

fun superimpose :: "string set \<Rightarrow> ctx_item list \<Rightarrow> int \<Rightarrow> error + int" where
  "superimpose actual_responders_set [] bitmap = Inr bitmap"
| "superimpose actual_responders_set (item # items) bitmap =
     (if c_epc item \<in> actual_responders_set then
        (case expected_mask (c_slot item) (c_rho item) of
           Inl e \<Rightarrow> Inl e
         | Inr pattern \<Rightarrow> superimpose actual_responders_set items (bitmap OR pattern))
      else superimpose actual_responders_set items bitmap)"

text \<open>The second loop with everything it updates: the two verification sets, the
  counters \<open>total_checks\<close> and \<open>error_cnt\<close>, and \<open>error_flag\<close>.\<close>

record verdicts =
  v_present :: "string set"
  v_missing :: "string set"
  total_checks :: int
  error_cnt :: int
  error_flag :: bool

definition match_count :: "int \<Rightarrow> ctx_item \<Rightarrow> error + int" where
  "match_count received_bitmap item =
     (case expected_mask (c_slot item) (c_rho item) of
        Inl e \<Rightarrow> Inl e
      | Inr m \<Rightarrow> Inr (int (count_ones (received_bitmap AND m))))"

definition judge_one :: "int \<Rightarrow> ctx_item \<Rightarrow> int \<Rightarrow> verdicts \<Rightarrow> verdicts" where
  "judge_one vote_threshold item cnt v =
     (if cnt \<ge> vote_threshold then
        v \<lparr> v_present := insert (c_epc item) (v_present v),
            total_checks := total_checks v + 1,
            error_cnt := (if cnt < c_rho item then error_cnt v + 1 else error_cnt v),
            error_flag := (if cnt < c_rho item then True else error_flag v) \<rparr>
      else
        v \<lparr> v_missing := insert (c_epc item) (v_missing v),
            total_checks := total_checks v + 1,
            error_cnt := error_cnt v + 1 \<rparr>)"

fun judge :: "int \<Rightarrow> int \<Rightarrow> ctx_item list \<Rightarrow> verdicts \<Rightarrow> error + verdicts" where
  "judge received_bitmap vote_threshold [] v = Inr v"
| "judge received_bitmap vote_threshold (item # items) v =
     (case match_count received_bitmap item of
        Inl e \<Rightarrow> Inl e
      | Inr cnt \<Rightarrow>
          judge received_bitmap vote_threshold items (judge_one vote_threshold item cnt v))"

text \<open>
  The adaptation compares the quotient \<open>error_cnt / total_checks\<close> with \<open>0.3\<close>. Both are
  floats in the source; the model compares the exact quotient with 3/10, which gives
  the same answer as long as the group has fewer than \<open>2^50\<close> tags (the quotient of two
  such counts that exceeds 3/10 exceeds it by at least \<open>1 / (10 * total_checks)\<close>, far
  more than a rounding error).
\<close>

definition adapt :: "lods \<Rightarrow> verdicts \<Rightarrow> int" where
  "adapt s v =
     (if is_adaptive s \<and> total_checks v > 0 then
        (if real_of_int (error_cnt v) / real_of_int (total_checks v) \<le> 3 / 10 then 2 else 4)
      else current_rho s)"

definition actual_responders_set :: "SlotResult \<Rightarrow> string set" where
  "actual_responders_set prev_result =
     (if status prev_result = IDLE then {} else set (tag_ids prev_result))"

definition received_bitmap :: "ctx_item list \<Rightarrow> SlotResult \<Rightarrow> error + int" where
  "received_bitmap ctx prev_result =
     (case superimpose (actual_responders_set prev_result) ctx 0 of
        Inl e \<Rightarrow> Inl e
      | Inr ideal \<Rightarrow> Inr (ideal XOR channel_noise_mask prev_result))"

definition vote_threshold :: "ctx_item list \<Rightarrow> int" where
  "vote_threshold ctx = (if c_rho (hd ctx) \<ge> 4 then 3 else c_rho (hd ctx))"

definition verify_and_adapt :: "lods \<Rightarrow> SlotResult \<Rightarrow> error + (lods \<times> bool)" where
  "verify_and_adapt s prev_result =
     (if last_sent_context s = [] then Inr (s, False)
      else
        (case received_bitmap (last_sent_context s) prev_result of
           Inl e \<Rightarrow> Inl e
         | Inr received \<Rightarrow>
        (case judge received (vote_threshold (last_sent_context s)) (last_sent_context s)
                \<lparr> v_present = verified_present s, v_missing = verified_missing s,
                  total_checks = 0, error_cnt = 0, error_flag = False \<rparr> of
           Inl e \<Rightarrow> Inl e
         | Inr v \<Rightarrow>
             Inr (s \<lparr> verified_present := v_present v,
                      verified_missing := v_missing v,
                      current_rho := adapt s v,
                      last_sent_context := [] \<rparr>,
                  error_flag v))))"

text \<open>
  Phase 3 (scheduling). \<open>schedule_loop\<close> is the \<open>while current_limit_k > 0\<close> loop; it
  returns the five \<open>final_\<close> variables, which keep their initial values when the loop
  ends without a seed.
\<close>

record choice =
  final_k :: int
  final_mask :: string
  final_seed :: int
  final_reply_bits :: int
  final_num_slots :: int

definition group_ints :: "entry list \<Rightarrow> int \<Rightarrow> int \<Rightarrow> error + int list" where
  "group_ints tags c k =
     collect (map (\<lambda>i. case py_index tags i of Inl e \<Rightarrow> Inl e | Inr t \<Rightarrow> Inr (e_int t))
                  [c..c + k - 1])"

text \<open>The slicing step never returns more tags than a positive limit allows; the
  scheduling loop below terminates for this reason.\<close>

lemma slice_loop_le:
  "slice_loop tags start_idx k0 = Inr (k, m) \<Longrightarrow> k \<le> max 1 k0"
proof (induction tags start_idx k0 rule: slice_loop.induct)
  case (1 tags start_idx k0)
  show ?case
  proof (cases "k0 \<le> 0")
    case True
    with "1.prems" show ?thesis
      by (subst (asm) slice_loop.simps) (auto split: sum.splits)
  next
    case False
    with "1.prems" "1.IH" show ?thesis
      by (subst (asm) slice_loop.simps) (fastforce split: sum.splits if_splits)
  qed
qed

lemma find_dynamic_slice_le:
  assumes "find_dynamic_slice s start_idx (Some l) = Inr (k, m)" and "0 < l"
  shows "k \<le> l"
proof -
  have "k \<le> max 1 (min (min (max_group_size s) (total_tags s - start_idx)) l) \<or> k = 0
        \<or> k = min (min (max_group_size s) (total_tags s - start_idx)) l"
    using assms(1) slice_loop_le [of "sorted_tags_bin s" start_idx _ k m]
    by (auto simp: find_dynamic_slice_def Let_def split: if_splits sum.splits)
  with assms(2) show ?thesis by auto
qed

function schedule_loop :: "lods \<Rightarrow> int \<Rightarrow> int \<Rightarrow> int \<Rightarrow> error + choice" where
  "schedule_loop s active_rho MAX_REPLY_BITS current_limit_k =
     (if current_limit_k > 0 then
        (case find_dynamic_slice s (cursor s) (Some current_limit_k) of
           Inl e \<Rightarrow> Inl e
         | Inr (k, lcp_mask) \<Rightarrow>
             if active_rho = 0 then Inl ZeroDivisionError
             else
               (case group_ints (sorted_tags_bin s) (cursor s) k of
                  Inl e \<Rightarrow> Inl e
                | Inr epc_ints \<Rightarrow>
               (case find_perfect_seed epc_ints
                       (max 1 (max 4 (min (k * active_rho) MAX_REPLY_BITS) div active_rho)) of
                  Inl e \<Rightarrow> Inl e
                | Inr (Some seed) \<Rightarrow>
                    Inr \<lparr> final_k = k, final_mask = lcp_mask, final_seed = seed,
                          final_reply_bits = max 4 (min (k * active_rho) MAX_REPLY_BITS),
                          final_num_slots =
                            max 1 (max 4 (min (k * active_rho) MAX_REPLY_BITS) div active_rho) \<rparr>
                | Inr None \<Rightarrow> schedule_loop s active_rho MAX_REPLY_BITS (k - 1))))
      else Inr \<lparr> final_k = 0, final_mask = [], final_seed = 0,
                 final_reply_bits = 0, final_num_slots = 0 \<rparr>)"
  by pat_completeness auto
termination
proof (relation "measure (\<lambda>(s, active_rho, MAX_REPLY_BITS, current_limit_k). nat current_limit_k)")
  show "wf (measure (\<lambda>(s, active_rho, MAX_REPLY_BITS, current_limit_k). nat current_limit_k))"
    by simp
next
  fix s :: lods and active_rho MAX_REPLY_BITS current_limit_k :: int
    and x2 :: "int \<times> string" and k :: int and lcp_mask :: string
  assume "0 < current_limit_k"
    and "find_dynamic_slice s (cursor s) (Some current_limit_k) = Inr x2"
    and "(k, lcp_mask) = x2"
  then have "k \<le> current_limit_k"
    using find_dynamic_slice_le [of s "cursor s" current_limit_k k lcp_mask] by simp
  with \<open>0 < current_limit_k\<close>
  show "((s, active_rho, MAX_REPLY_BITS, k - 1), (s, active_rho, MAX_REPLY_BITS, current_limit_k))
        \<in> measure (\<lambda>(s, active_rho, MAX_REPLY_BITS, current_limit_k). nat current_limit_k)"
    by simp
qed

declare schedule_loop.simps [simp del]

text \<open>The context of the chosen group: one entry per tag of
  \<open>sorted_tags_bin[cursor : cursor + final_k]\<close>, with its sub-slot under the chosen seed.\<close>

fun build_context :: "entry list \<Rightarrow> int \<Rightarrow> int \<Rightarrow> int \<Rightarrow> error + ctx_item list" where
  "build_context [] seed num_slots active_rho = Inr []"
| "build_context (item # items) seed num_slots active_rho =
     (if num_slots = 0 then Inl ZeroDivisionError
      else
        (case build_context items seed num_slots active_rho of
           Inl e \<Rightarrow> Inl e
         | Inr rest \<Rightarrow>
             Inr (\<lparr> c_epc = e_hex item, c_slot = (e_int item XOR seed) mod num_slots,
                    c_rho = active_rho \<rparr> # rest)))"

text \<open>The responder predicate of the command. \<open>int(tag.epc, 16)\<close> is read from
  \<open>epc_int\<close>, so the binary form is \<open>tag_bin\<close>, the one \<open>initialize\<close> sorted by.\<close>

definition protocol_logic :: "string \<Rightarrow> Tag \<Rightarrow> bool" where
  "protocol_logic lcp_mask tag = startswith (tag_bin tag) lcp_mask"

definition schedule :: "lods \<Rightarrow> bool \<Rightarrow> error + (ReaderCommand \<times> lods)" where
  "schedule s err_flag =
     (let active_rho = current_rho s;
          MAX_REPLY_BITS = (if active_rho \<ge> 4 \<and> err_flag then min 128 (max_payload_bit s)
                            else max_payload_bit s)
      in
        if active_rho = 0 then Inl ZeroDivisionError
        else
          (case schedule_loop s active_rho MAX_REPLY_BITS
                  (min (min (max_group_size s) (MAX_REPLY_BITS div active_rho))
                       (total_tags s - cursor s)) of
             Inl e \<Rightarrow> Inl e
           | Inr ch \<Rightarrow>
          (case build_context
                  (py_slice (sorted_tags_bin s) (cursor s) (cursor s + final_k ch))
                  (final_seed ch) (final_num_slots ch) active_rho of
             Inl e \<Rightarrow> Inl e
           | Inr current_context \<Rightarrow>
               let base_len = int (length (final_mask ch)) + 4 + 4;
                   crc_len = (if base_len < 32 then 5 else 16);
                   payload_cost = base_len + crc_len
               in Inr (\<lparr> payload_bits = payload_cost,
                         expected_reply_bits = final_reply_bits ch,
                         response_protocol = protocol_logic (final_mask ch),
                         concatenated_tags_count = 1 \<rparr>,
                       s \<lparr> last_sent_context := current_context,
                           cursor := cursor s + final_k ch \<rparr>))))"

text \<open>\<open>get_next_command\<close>: phase 1, the termination check of phase 2 (the command with
  the negative payload is the completion sentinel), then phase 3.\<close>

definition get_next_command :: "lods \<Rightarrow> SlotResult \<Rightarrow> error + (ReaderCommand \<times> lods)" where
  "get_next_command s prev_result =
     (case verify_and_adapt s prev_result of
        Inl e \<Rightarrow> Inl e
      | Inr (s1, err_flag) \<Rightarrow>
          if cursor s1 \<ge> total_tags s1 then
            Inr (\<lparr> payload_bits = - 1, expected_reply_bits = 0,
                   response_protocol = (\<lambda>t. False), concatenated_tags_count = 1 \<rparr>,
                 s1 \<lparr> is_running := False \<rparr>)
          else schedule s1 err_flag)"

definition is_finished :: "lods \<Rightarrow> bool" where
  "is_finished s = (\<not> is_running s)"

definition get_results :: "lods \<Rightarrow> string set \<times> string set" where
  "get_results s = (verified_present s, verified_missing s)"

section \<open>framework.py: the simulation kernel\<close>

text \<open>
  \<open>SimulationConfig\<close>. The rates and the capture margin are floats in the source; the
  model takes them as real numbers.
\<close>

record SimulationConfig =
  TOTAL_TAGS :: int
  MISSING_RATE :: real
  ENABLE_NOISE :: bool
  packet_error_rate :: real
  BIT_ERROR_RATE :: real
  ENABLE_CAPTURE_EFFECT :: bool
  CAPTURE_RATIO_DB :: real
  ENABLE_ENERGY_TRACKING :: bool
  CLOCK_DRIFT_RATE :: real
  BURST_ERASURE_LEN :: int
  JITTER_OFFSET :: int
  GUARD_INTERVAL_BITS :: real

text \<open>
  \<open>AlgorithmInterface\<close>, as far as the kernel uses it: the capability flag and the two
  methods the loop calls, over the state \<open>'s\<close> of the protocol object. A method call
  mutates the object, so \<open>get_next_command\<close> returns the new state with the command.
\<close>

record 's AlgorithmInterface =
  supports_phy_impairments :: bool
  alg_get_next_command :: "'s \<Rightarrow> SlotResult \<Rightarrow> error + (ReaderCommand \<times> 's)"
  alg_is_finished :: "'s \<Rightarrow> bool"

text \<open>
  The module \<open>random\<close>: the kernel calls \<open>random.random()\<close> and \<open>random.randint(a, b)\<close>.
  The generator is a state \<open>'r\<close> with these two operations, whatever they return.
\<close>

record 'r random_module =
  random_random :: "'r \<Rightarrow> real \<times> 'r"
  random_randint :: "int \<Rightarrow> int \<Rightarrow> 'r \<Rightarrow> int \<times> 'r"

definition MAX_SLOTS_LIMIT :: int where
  "MAX_SLOTS_LIMIT = 200000"

text \<open>
  The local variables of \<open>run_high_fidelity_simulation\<close> that live across iterations.
  The time and energy totals are sums of floats that no branch of the loop reads; they
  are not part of the model, and neither is \<open>phy_efficiency\<close>, derived from the counters
  at the end.
\<close>

record ('s, 'r) kernel =
  total_slots :: int
  collision_slots :: int
  success_slots :: int
  idle_slots :: int
  prev_result :: SlotResult
  algorithm :: 's
  rng :: 'r

text \<open>Step C: the identifiers of the present tags the command's predicate accepts.\<close>

definition responding_tags :: "ReaderCommand \<Rightarrow> Tag list \<Rightarrow> string list" where
  "responding_tags cmd present_tags = map epc (filter (response_protocol cmd) present_tags)"

text \<open>\<open>rssi_map\<close>: a dictionary comprehension, so a later tag with the same identifier
  overwrites an earlier one.\<close>

definition rssi_map :: "Tag list \<Rightarrow> string \<rightharpoonup> real" where
  "rssi_map present_tags = map_of (rev (map (\<lambda>t. (epc t, rssi t)) present_tags))"

text \<open>
  Step D.1 for a slot with two or more responders: the capture arbitration.
  \<open>sort(key=..., reverse=True)\<close> is a stable descending sort, which is the stable
  ascending sort by the negated key. The difference of the two strongest signals is a
  float subtraction in the source and exact here.
\<close>

definition signal_strengths :: "(string \<rightharpoonup> real) \<Rightarrow> string list \<Rightarrow> error + (string \<times> real) list" where
  "signal_strengths rmap responders =
     (case collect (map (\<lambda>e. case rmap e of None \<Rightarrow> Inl KeyError | Some r \<Rightarrow> Inr (e, r))
                        responders) of
        Inl e \<Rightarrow> Inl e
      | Inr strengths \<Rightarrow> Inr (sort_key (\<lambda>x. - snd x) strengths))"

definition capture_winner ::
  "SimulationConfig \<Rightarrow> (string \<rightharpoonup> real) \<Rightarrow> string list \<Rightarrow> error + string option" where
  "capture_winner config rmap responders =
     (if ENABLE_CAPTURE_EFFECT config then
        (case signal_strengths rmap responders of
           Inl e \<Rightarrow> Inl e
         | Inr strengths \<Rightarrow>
             if length strengths \<ge> 2 then
               (if snd (strengths ! 0) - snd (strengths ! 1) \<ge> CAPTURE_RATIO_DB config
                then Inr (Some (fst (strengths ! 0))) else Inr None)
             else Inr None)
      else Inr None)"

text \<open>
  Step D.1 as a whole: the status and \<open>resolved_data\<close> of the slot, and the counters.
  \<open>if winner:\<close> tests the truth value of the winner, so an empty identifier does not
  count as one.
\<close>

definition classify ::
  "SimulationConfig \<Rightarrow> (string \<rightharpoonup> real) \<Rightarrow> string list \<Rightarrow> ('s, 'r) kernel
   \<Rightarrow> error + (PacketType \<times> string list option \<times> ('s, 'r) kernel)" where
  "classify config rmap responders ks =
     (if length responders = 0 then
        Inr (IDLE, None, ks \<lparr> idle_slots := idle_slots ks + 1 \<rparr>)
      else if length responders = 1 then
        Inr (SUCCESS, Some [responders ! 0], ks \<lparr> success_slots := success_slots ks + 1 \<rparr>)
      else
        (case capture_winner config rmap responders of
           Inl e \<Rightarrow> Inl e
         | Inr winner \<Rightarrow>
             (case winner of
                Some w \<Rightarrow>
                  if w \<noteq> [] then
                    Inr (SUCCESS, Some [w],
                         ks \<lparr> collision_slots := collision_slots ks + 1 - 1,
                              success_slots := success_slots ks + 1 \<rparr>)
                  else Inr (COLLISION, None, ks \<lparr> collision_slots := collision_slots ks + 1 \<rparr>)
              | None \<Rightarrow>
                  Inr (COLLISION, None, ks \<lparr> collision_slots := collision_slots ks + 1 \<rparr>))))"

text \<open>Step D.2, the random bit flips: one draw per bit of the reply.\<close>

fun bit_flips :: "'r random_module \<Rightarrow> real \<Rightarrow> nat list \<Rightarrow> int \<Rightarrow> 'r \<Rightarrow> int \<times> 'r" where
  "bit_flips R ber [] noise_mask r = (noise_mask, r)"
| "bit_flips R ber (i # is) noise_mask r =
     (case random_random R r of
        (u, r') \<Rightarrow>
          bit_flips R ber is (if u < ber then noise_mask OR push_bit i 1 else noise_mask) r')"

text \<open>
  Step D.2, the clock drift. \<open>0.5 / config.CLOCK_DRIFT_RATE\<close> is a float division, so
  its result is the float nearest to the exact quotient, and \<open>int\<close> takes the integer
  part of that float; for a rate so small that the quotient overflows, \<open>int\<close> raises.
  Every bit from \<open>max_safe_bits\<close> to the end of the reply is flipped.
\<close>

definition max_safe_bits :: "SimulationConfig \<Rightarrow> error + int" where
  "max_safe_bits config = py_int (nearest_double ((1 / 2) / CLOCK_DRIFT_RATE config))"

definition drift_flips :: "SimulationConfig \<Rightarrow> int \<Rightarrow> int \<Rightarrow> error + int" where
  "drift_flips config expected_len noise_mask =
     (if CLOCK_DRIFT_RATE config > 0 then
        (case max_safe_bits config of
           Inl e \<Rightarrow> Inl e
         | Inr safe \<Rightarrow>
             if expected_len > safe then
               Inr (fold (\<lambda>i m. m OR push_bit (nat i) 1) [safe..expected_len - 1] noise_mask)
             else Inr noise_mask)
      else Inr noise_mask)"

text \<open>
  Step D.2, burst erasure and jitter. The block builds \<open>extra_impairments\<close> and then
  evaluates \<open>if not supports_phy:\<close>. The name \<open>supports_phy\<close> is bound nowhere, neither in
  the function nor in the module, so evaluating it raises \<open>NameError\<close>.
\<close>

definition erasure ::
  "'r random_module \<Rightarrow> SimulationConfig \<Rightarrow> int \<Rightarrow> 'r \<Rightarrow> error + ((int \<times> int) \<times> 'r)" where
  "erasure R config expected_len r =
     (if BURST_ERASURE_LEN config > 0 then
        (case random_randint R 0 (max 0 (expected_len - BURST_ERASURE_LEN config)) r of
           (start_bit, r') \<Rightarrow>
             (case and_then (py_shl 1 (BURST_ERASURE_LEN config))
                            (\<lambda>one. py_shl (one - 1) start_bit) of
                Inl e \<Rightarrow> Inl e
              | Inr erasure_mask \<Rightarrow> Inr ((erasure_mask, JITTER_OFFSET config), r')))
      else Inr ((0, JITTER_OFFSET config), r))"

text \<open>Step D.2 as a whole: status, \<open>resolved_data\<close>, noise mask, \<open>extra_impairments\<close>
  and the generator after the draws.\<close>

definition impair ::
  "'s AlgorithmInterface \<Rightarrow> 'r random_module \<Rightarrow> SimulationConfig \<Rightarrow> ReaderCommand
   \<Rightarrow> PacketType \<Rightarrow> string list option \<Rightarrow> 'r
   \<Rightarrow> error + (PacketType \<times> string list option \<times> int \<times> (int \<times> int) option \<times> 'r)" where
  "impair A R config cmd st resolved r =
     (let (lost, r1) = (if ENABLE_NOISE config
                        then (case random_random R r of
                                (u, r') \<Rightarrow> (u < packet_error_rate config, r'))
                        else (False, r))
      in
        if lost then Inr (IDLE, resolved, 0, None, r1)
        else if st \<noteq> IDLE \<and> expected_reply_bits cmd > 0 then
          (let (m1, r2) = (if ENABLE_NOISE config \<and> BIT_ERROR_RATE config > 0
                           then bit_flips R (BIT_ERROR_RATE config)
                                  [0..<nat (expected_reply_bits cmd)] 0 r1
                           else (0, r1))
           in
             (case drift_flips config (expected_reply_bits cmd) m1 of
                Inl e \<Rightarrow> Inl e
              | Inr m2 \<Rightarrow>
                  if BURST_ERASURE_LEN config > 0 \<or> JITTER_OFFSET config > 0 then
                    (case erasure R config (expected_reply_bits cmd) r2 of
                       Inl e \<Rightarrow> Inl e
                     | Inr (extra_impairments, r3) \<Rightarrow> Inl NameError)
                  else Inr (st, resolved, m2, None, r2)))
        else Inr (st, resolved, 0, None, r1))"

text \<open>One iteration of the loop after the command has been fetched: steps C and D and
  the result handed to the next call.\<close>

definition run_slot ::
  "'s AlgorithmInterface \<Rightarrow> 'r random_module \<Rightarrow> SimulationConfig \<Rightarrow> Tag list
   \<Rightarrow> ReaderCommand \<Rightarrow> ('s, 'r) kernel \<Rightarrow> error + ('s, 'r) kernel" where
  "run_slot A R config present_tags cmd ks =
     (case classify config (rssi_map present_tags) (responding_tags cmd present_tags)
             (ks \<lparr> total_slots := total_slots ks + 1 \<rparr>) of
        Inl e \<Rightarrow> Inl e
      | Inr (st, resolved, ks1) \<Rightarrow>
          (case impair A R config cmd st resolved (rng ks1) of
             Inl e \<Rightarrow> Inl e
           | Inr (st', resolved', noise_mask, extra_impairments, r') \<Rightarrow>
               Inr (ks1 \<lparr> rng := r',
                          prev_result :=
                            \<lparr> status = st', tag_ids = responding_tags cmd present_tags,
                              resolved_data = resolved', channel_noise_mask = noise_mask,
                              extra_info = extra_impairments \<rparr> \<rparr>)))"

lemma classify_total_slots:
  "classify config rmap responders ks = Inr (st, resolved, ks1)
   \<Longrightarrow> total_slots ks1 = total_slots ks"
  by (auto simp: classify_def split: if_splits sum.splits option.splits)

lemma run_slot_total_slots:
  "run_slot A R config present_tags cmd ks = Inr ks' \<Longrightarrow> total_slots ks' = total_slots ks + 1"
  by (auto simp: run_slot_def split: sum.splits dest!: classify_total_slots)

text \<open>
  The \<open>while not algorithm.is_finished()\<close> loop. It is left when the protocol is
  finished, when the slot count has passed the ceiling (after a printed warning), or
  when the command carries the negative sentinel; in each case the function goes on to
  return the statistics.
\<close>

function run_loop ::
  "'s AlgorithmInterface \<Rightarrow> 'r random_module \<Rightarrow> SimulationConfig \<Rightarrow> Tag list
   \<Rightarrow> ('s, 'r) kernel \<Rightarrow> error + ('s, 'r) kernel" where
  "run_loop A R config present_tags ks =
     (if alg_is_finished A (algorithm ks) then Inr ks
      else if total_slots ks > MAX_SLOTS_LIMIT then Inr ks
      else
        (case alg_get_next_command A (algorithm ks) (prev_result ks) of
           Inl e \<Rightarrow> Inl e
         | Inr (cmd, a') \<Rightarrow>
             if payload_bits cmd < 0 then Inr (ks \<lparr> algorithm := a' \<rparr>)
             else
               (case run_slot A R config present_tags cmd (ks \<lparr> algorithm := a' \<rparr>) of
                  Inl e \<Rightarrow> Inl e
                | Inr ks' \<Rightarrow> run_loop A R config present_tags ks')))"
  by pat_completeness auto
termination
proof (relation "measure (\<lambda>(A, R, config, present_tags, ks).
                            nat (MAX_SLOTS_LIMIT + 1 - total_slots ks))")
  show "wf (measure (\<lambda>(A, R, config, present_tags, ks).
                       nat (MAX_SLOTS_LIMIT + 1 - total_slots ks)))"
    by simp
next
  fix A :: "'s AlgorithmInterface" and R :: "'r random_module" and config :: SimulationConfig
    and present_tags :: "Tag list" and ks ks' :: "('s, 'r) kernel"
    and x2 :: "ReaderCommand \<times> 's" and cmd :: ReaderCommand and a' :: 's
  assume "\<not> MAX_SLOTS_LIMIT < total_slots ks"
    and "run_slot A R config present_tags cmd (ks \<lparr> algorithm := a' \<rparr>) = Inr ks'"
  then show "((A, R, config, present_tags, ks'), (A, R, config, present_tags, ks))
             \<in> measure (\<lambda>(A, R, config, present_tags, ks).
                           nat (MAX_SLOTS_LIMIT + 1 - total_slots ks))"
    by (auto dest!: run_slot_total_slots)
qed

declare run_loop.simps [simp del]

text \<open>
  \<open>run_high_fidelity_simulation\<close>: the caller passes the protocol object (its state
  \<open>a\<close>) and gets the counters back; the object and the generator are left in the state
  the loop brought them to.
\<close>

definition initial_result :: SlotResult where
  "initial_result = \<lparr> status = IDLE, tag_ids = [], resolved_data = None,
                      channel_noise_mask = 0, extra_info = None \<rparr>"

definition fresh_kernel :: "'s \<Rightarrow> 'r \<Rightarrow> ('s, 'r) kernel" where
  "fresh_kernel a r =
     \<lparr> total_slots = 0, collision_slots = 0, success_slots = 0, idle_slots = 0,
       prev_result = initial_result, algorithm = a, rng = r \<rparr>"

definition run_high_fidelity_simulation ::
  "'s AlgorithmInterface \<Rightarrow> 'r random_module \<Rightarrow> SimulationConfig \<Rightarrow> Tag list \<Rightarrow> 's \<Rightarrow> 'r
   \<Rightarrow> error + ('s, 'r) kernel" where
  "run_high_fidelity_simulation A R config true_tags a r =
     run_loop A R config (filter is_present true_tags) (fresh_kernel a r)"

text \<open>The flagship protocol behind the interface; it leaves the capability flag at the
  default of the base class.\<close>

definition LODS :: "lods AlgorithmInterface" where
  "LODS = \<lparr> supports_phy_impairments = False,
            alg_get_next_command = get_next_command,
            alg_is_finished = is_finished \<rparr>"

section \<open>Notions the properties are stated with\<close>

text \<open>
  The sub-field of a tag of the pending context: the \<open>rho\<close> bits of the reply that
  start at bit \<open>slot * rho\<close>. Where the shifts of \<open>expected_mask\<close> are defined, this is
  the mask it returns.
\<close>

definition sub_field :: "ctx_item \<Rightarrow> int" where
  "sub_field item = push_bit (nat (c_slot item * c_rho item)) (mask (nat (c_rho item)))"

text \<open>
  A group as the scheduler sends it: every tag with the same redundancy \<open>rho\<close>, in a
  sub-slot of its own, and no identifier twice.
\<close>

definition well_formed_group :: "int \<Rightarrow> ctx_item list \<Rightarrow> bool" where
  "well_formed_group rho ctx \<longleftrightarrow>
     (\<forall>item\<in>set ctx. c_rho item = rho \<and> 0 \<le> c_slot item)
     \<and> distinct (map c_slot ctx) \<and> distinct (map c_epc ctx)"

text \<open>The verdict on one tag: confirmed present when its sub-field holds at least
  \<open>vote_threshold\<close> ones.\<close>

definition confirmed :: "int \<Rightarrow> int \<Rightarrow> ctx_item \<Rightarrow> bool" where
  "confirmed received threshold item =
     (case match_count received item of
        Inl e \<Rightarrow> False
      | Inr cnt \<Rightarrow> threshold \<le> cnt)"

text \<open>
  An imperfect check: the tag is confirmed missing, or confirmed present with fewer than
  \<open>rho\<close> ones in its sub-field. The imperfect fraction of a group is the number of
  imperfect checks over the number of tags checked.
\<close>

definition imperfect :: "int \<Rightarrow> int \<Rightarrow> ctx_item \<Rightarrow> bool" where
  "imperfect received threshold item =
     (case match_count received item of
        Inl e \<Rightarrow> False
      | Inr cnt \<Rightarrow> cnt < threshold \<or> cnt < c_rho item)"

definition imperfect_fraction :: "ctx_item list \<Rightarrow> SlotResult \<Rightarrow> real" where
  "imperfect_fraction ctx prev =
     (case received_bitmap ctx prev of
        Inl e \<Rightarrow> 0
      | Inr received \<Rightarrow>
          real (length (filter (imperfect received (vote_threshold ctx)) ctx))
          / real (length ctx))"

text \<open>Flipping bit \<open>b\<close> of a tag's sub-field in the noise mask of a result.\<close>

definition flip_noise_bit :: "ctx_item \<Rightarrow> nat \<Rightarrow> SlotResult \<Rightarrow> SlotResult" where
  "flip_noise_bit item b prev =
     prev \<lparr> channel_noise_mask :=
              channel_noise_mask prev XOR push_bit (nat (c_slot item * c_rho item) + b) 1 \<rparr>"

text \<open>The binary identifier at a position of the sorted population, and the number a
  string of binary digits stands for.\<close>

definition bin_at :: "lods \<Rightarrow> int \<Rightarrow> string" where
  "bin_at s i = e_bin (sorted_tags_bin s ! nat i)"

definition bits_value :: "string \<Rightarrow> nat" where
  "bits_value s = foldl (\<lambda>v c. 2 * v + (if c = CHR ''1'' then 1 else 0)) 0 s"

text \<open>A sequence of calls of \<open>get_next_command\<close> on the results of a list, whatever they
  are; the run stops at the first exception.\<close>

fun drive :: "lods \<Rightarrow> SlotResult list \<Rightarrow> error + lods" where
  "drive s [] = Inr s"
| "drive s (r # rs) =
     (case get_next_command s r of
        Inl e \<Rightarrow> Inl e
      | Inr (cmd, s') \<Rightarrow> drive s' rs)"

text \<open>
  The context \<open>_schedule_new_transmission\<close> leaves behind for a group: one item
  per tag of the slice, in slice order, with the slot the seed assigns and the
  redundancy in force.
\<close>

definition group_context :: "int \<Rightarrow> int \<Rightarrow> int \<Rightarrow> entry list \<Rightarrow> ctx_item list" where
  "group_context seed num_slots rho items =
     map (\<lambda>e. \<lparr> c_epc = e_hex e, c_slot = (e_int e XOR seed) mod num_slots, c_rho = rho \<rparr>) items"

text \<open>
  The bookkeeping of a run. The identifiers of the tags before the cursor are those
  already decided followed by those of the pending group; the decided ones are exactly
  the union of the two result sets, which are disjoint; a stopped run has walked the
  whole list and has no pending group.
\<close>

definition partition_inv :: "lods \<Rightarrow> bool" where
  "partition_inv s \<longleftrightarrow>
     total_tags s = int (length (sorted_tags_bin s))
     \<and> 0 \<le> cursor s \<and> cursor s \<le> total_tags s
     \<and> distinct (map e_hex (sorted_tags_bin s))
     \<and> (\<exists>past. map e_hex (take (nat (cursor s)) (sorted_tags_bin s))
                    = past @ map c_epc (last_sent_context s)
                 \<and> verified_present s \<union> verified_missing s = set past)
     \<and> verified_present s \<inter> verified_missing s = {}
     \<and> (\<not> is_running s \<longrightarrow> total_tags s \<le> cursor s \<and> last_sent_context s = [])"

text \<open>
  The same, for a run over a given expected population.
\<close>

definition run_inv :: "Tag list \<Rightarrow> lods \<Rightarrow> bool" where
  "run_inv expected_tags s \<longleftrightarrow>
     partition_inv s \<and> e_hex ` set (sorted_tags_bin s) = epc ` set expected_tags"

text \<open>
  The identifiers of the tags that are in the field, and what a run on a clean channel
  maintains about them: the sorted population is the one \<open>initialize\<close> built, the
  bookkeeping above holds, no absent tag has been confirmed present and no present tag
  has been confirmed missing.
\<close>

definition present_ids :: "Tag list \<Rightarrow> string set" where
  "present_ids tags = epc ` set (filter is_present tags)"

definition sound_inv :: "Tag list \<Rightarrow> lods \<Rightarrow> bool" where
  "sound_inv tags a \<longleftrightarrow>
     sorted_tags_bin a = sorted_tags_bin (initialize a tags)
     \<and> partition_inv a
     \<and> verified_present a \<subseteq> present_ids tags
     \<and> verified_missing a \<inter> present_ids tags = {}"

text \<open>
  What such a run maintains between a command and the verification of its result. The
  pending group, if there is one, has one non-zero redundancy, non-negative sub-slots
  that are pairwise different, the result carries no noise, and a tag of the group is
  among the responders exactly when it is in the field.
\<close>

definition pending_ok :: "Tag list \<Rightarrow> lods \<Rightarrow> SlotResult \<Rightarrow> bool" where
  "pending_ok tags a pr \<longleftrightarrow>
     last_sent_context a = [] \<or>
     ((\<exists>rho. rho \<noteq> 0 \<and> (\<forall>it\<in>set (last_sent_context a). c_rho it = rho \<and> 0 \<le> c_slot it))
      \<and> distinct (map c_slot (last_sent_context a))
      \<and> channel_noise_mask pr = 0
      \<and> (\<forall>it\<in>set (last_sent_context a).
            c_epc it \<in> actual_responders_set pr \<longleftrightarrow> c_epc it \<in> present_ids tags))"

section \<open>Concrete scenarios\<close>

text \<open>
  The flagship configuration of \<open>Algorithm_Config.py\<close>, two tags with 24-digit
  identifiers (\<open>tag1\<close> present, \<open>tag2\<close> absent), and the state of the protocol after its
  first command for the population that holds \<open>tag1\<close> alone: the tag waits in the
  pending context, in sub-slot 0 with redundancy 4.
\<close>

definition flagship :: lods where
  "flagship = LODS_MTI_Algorithm 128 4 True 256"

definition tag1 :: Tag where
  "tag1 = \<lparr> epc = ''000000000000000000000001'', epc_int = 1, is_present = True,
            rssi = - 50 \<rparr>"

definition tag2 :: Tag where
  "tag2 = \<lparr> epc = ''000000000000000000000002'', epc_int = 2, is_present = False,
            rssi = - 60 \<rparr>"

definition tag1_pending :: lods where
  "tag1_pending =
     \<lparr> max_group_size = 128, target_rho = 4, is_adaptive = True, max_payload_bit = 256,
       current_rho = 4,
       sorted_tags_bin =
         [\<lparr> e_hex = ''000000000000000000000001'',
             e_bin = replicate 95 (CHR ''0'') @ ''1'', e_int = 1 \<rparr>],
       total_tags = 1, cursor = 1, is_running = True,
       last_sent_context = [\<lparr> c_epc = ''000000000000000000000001'', c_slot = 0, c_rho = 4 \<rparr>],
       verified_present = {}, verified_missing = {} \<rparr>"

text \<open>The reply of \<open>tag1\<close> as the kernel reports it on a clean channel.\<close>

definition tag1_replies :: SlotResult where
  "tag1_replies = \<lparr> status = SUCCESS, tag_ids = [''000000000000000000000001''],
                    resolved_data = Some [''000000000000000000000001''],
                    channel_noise_mask = 0, extra_info = None \<rparr>"

text \<open>
  The default \<open>SimulationConfig()\<close>, every impairment off, and a generator for the runs
  that draw nothing or whose draws do not matter.
\<close>

definition ideal_config :: SimulationConfig where
  "ideal_config =
     \<lparr> TOTAL_TAGS = 1000, MISSING_RATE = 0, ENABLE_NOISE = False, packet_error_rate = 0,
       BIT_ERROR_RATE = 0, ENABLE_CAPTURE_EFFECT = False, CAPTURE_RATIO_DB = 3,
       ENABLE_ENERGY_TRACKING = False, CLOCK_DRIFT_RATE = 0, BURST_ERASURE_LEN = 0,
       JITTER_OFFSET = 0, GUARD_INTERVAL_BITS = 0 \<rparr>"

definition no_random :: "unit random_module" where
  "no_random = \<lparr> random_random = (\<lambda>r. (0, r)), random_randint = (\<lambda>a b r. (a, r)) \<rparr>"

text \<open>A channel that loses every packet: noise enabled with packet error rate 1, so
  that the draw \<open>0\<close> of \<open>no_random\<close> falls below it.\<close>

definition lossy_config :: SimulationConfig where
  "lossy_config = ideal_config \<lparr> ENABLE_NOISE := True, packet_error_rate := 1 \<rparr>"

text \<open>Two present tags whose signal strengths differ by exactly 3 dB.\<close>

definition strong_tag :: Tag where
  "strong_tag = \<lparr> epc = ''00000000000000000000000A'', epc_int = 10, is_present = True,
                  rssi = - 40 \<rparr>"

definition weak_tag :: Tag where
  "weak_tag = \<lparr> epc = ''00000000000000000000000B'', epc_int = 11, is_present = True,
                rssi = - 43 \<rparr>"

text \<open>Five present tags with the identifiers 0 to 4; they are scheduled with
  \<open>max_group_size = 3\<close> below.\<close>

definition five_tags :: "Tag list" where
  "five_tags =
     [\<lparr> epc = ''000000000000000000000000'', epc_int = 0, is_present = True, rssi = - 50 \<rparr>,
      \<lparr> epc = ''000000000000000000000001'', epc_int = 1, is_present = True, rssi = - 50 \<rparr>,
      \<lparr> epc = ''000000000000000000000002'', epc_int = 2, is_present = True, rssi = - 50 \<rparr>,
      \<lparr> epc = ''000000000000000000000003'', epc_int = 3, is_present = True, rssi = - 50 \<rparr>,
      \<lparr> epc = ''000000000000000000000004'', epc_int = 4, is_present = True, rssi = - 50 \<rparr>]"

text \<open>
  A protocol object that never finishes: with \<open>max_group_size = 0\<close> every call
  schedules an empty group, so the cursor stays where it is and each call returns the
  same command.
\<close>

definition stuck :: lods where
  "stuck = initialize (LODS_MTI_Algorithm 0 4 True 256) [tag1]"

definition stuck_cmd :: ReaderCommand where
  "stuck_cmd = \<lparr> payload_bits = 13, expected_reply_bits = 0,
                 response_protocol = protocol_logic [], concatenated_tags_count = 1 \<rparr>"

text \<open>
  A whole run over two expected tags of which only the first is in the field: one
  group, one reply, and the run stops with the first tag present and the second missing.
\<close>

definition two_tags_done :: lods where
  "two_tags_done =
     \<lparr> max_group_size = 128, target_rho = 4, is_adaptive = True, max_payload_bit = 256,
       current_rho = 4,
       sorted_tags_bin =
         [\<lparr> e_hex = ''000000000000000000000001'',
             e_bin = replicate 95 (CHR ''0'') @ ''1'', e_int = 1 \<rparr>,
          \<lparr> e_hex = ''000000000000000000000002'',
             e_bin = replicate 94 (CHR ''0'') @ ''10'', e_int = 2 \<rparr>],
       total_tags = 2, cursor = 2, is_running = False, last_sent_context = [],
       verified_present = {''000000000000000000000001''},
       verified_missing = {''000000000000000000000002''} \<rparr>"

definition two_tags_run :: "(lods, unit) kernel" where
  "two_tags_run =
     \<lparr> total_slots = 1, collision_slots = 0, success_slots = 1, idle_slots = 0,
       prev_result = tag1_replies, algorithm = two_tags_done, rng = () \<rparr>"

lemma tag1_pending_reached:
  "drive (initialize flagship [tag1]) [initial_result] = Inr tag1_pending"
  by code_simp

section \<open>Rounding to a float\<close>

text \<open>\<open>floor_log2\<close> and \<open>binary_exponent\<close> find the binary exponent: a positive \<open>x\<close>
  lies between \<open>2\<close> to the power \<open>binary_exponent x\<close> and twice that.\<close>

lemma floor_log2_bounds:
  "1 \<le> n \<Longrightarrow> 0 \<le> floor_log2 n \<and> 2 ^ nat (floor_log2 n) \<le> n \<and> n < 2 ^ nat (floor_log2 n + 1)"
proof (induction n rule: floor_log2.induct)
  case (1 n)
  show ?case
  proof (cases "n < 2")
    case True
    with "1.prems" have "n = 1" by simp
    then show ?thesis by (simp add: floor_log2.simps)
  next
    case False
    then have "1 \<le> n div 2" by simp
    from "1.IH" [OF False this] have nn: "0 \<le> floor_log2 (n div 2)"
      and lo: "2 ^ nat (floor_log2 (n div 2)) \<le> n div 2"
      and hi: "n div 2 < 2 ^ nat (floor_log2 (n div 2) + 1)"
      by simp_all
    from False have e: "floor_log2 n = 1 + floor_log2 (n div 2)"
      by (subst floor_log2.simps) simp
    from nn have s: "nat (1 + floor_log2 (n div 2)) = Suc (nat (floor_log2 (n div 2)))"
      "nat (1 + floor_log2 (n div 2) + 1) = Suc (nat (floor_log2 (n div 2) + 1))"
      by simp_all
    from lo have "2 * 2 ^ nat (floor_log2 (n div 2)) \<le> n" by linarith
    moreover from hi have "n < 2 * 2 ^ nat (floor_log2 (n div 2) + 1)" by linarith
    ultimately show ?thesis using nn by (simp only: e s power_Suc) simp
  qed
qed

lemma pow2_nonneg: "0 \<le> k \<Longrightarrow> pow2 k = 2 ^ nat k"
  by (simp add: pow2_def)

lemma pow2_neg: "k \<le> 0 \<Longrightarrow> pow2 k = 1 / 2 ^ nat (- k)"
  by (simp add: pow2_def)

lemma binary_exponent_bounds:
  assumes "0 < x"
  shows "pow2 (binary_exponent x) \<le> x \<and> x < pow2 (binary_exponent x + 1)"
proof (cases "1 \<le> x")
  case True
  let ?n = "\<lfloor>x\<rfloor>"
  let ?e = "floor_log2 ?n"
  from True have n1: "1 \<le> ?n" by simp
  from floor_log2_bounds [OF n1] have e0: "0 \<le> ?e"
    and lo: "2 ^ nat ?e \<le> ?n" and hi: "?n < 2 ^ nat (?e + 1)"
    by simp_all
  from lo have "real_of_int (2 ^ nat ?e) \<le> real_of_int ?n" by (simp only: of_int_le_iff)
  also have "\<dots> \<le> x" by simp
  finally have a: "2 ^ nat ?e \<le> x" by simp
  from hi have "?n + 1 \<le> 2 ^ nat (?e + 1)" by simp
  then have "real_of_int (?n + 1) \<le> real_of_int (2 ^ nat (?e + 1))" by (simp only: of_int_le_iff)
  moreover have "x < real_of_int (?n + 1)" by linarith
  ultimately have "x < real_of_int (2 ^ nat (?e + 1))" by linarith
  then have b: "x < 2 ^ nat (?e + 1)" by simp
  from True e0 a b show ?thesis
    by (simp add: binary_exponent_def pow2_nonneg)
next
  case False
  with assms have x1: "x < 1" by simp
  let ?y = "1 / x"
  let ?m = "\<lceil>?y\<rceil> - 1"
  let ?k = "floor_log2 ?m"
  from assms x1 have y1: "1 < ?y" by simp
  then have m1: "1 \<le> ?m" by linarith
  from floor_log2_bounds [OF m1] have k0: "0 \<le> ?k"
    and lo: "2 ^ nat ?k \<le> ?m" and hi: "?m < 2 ^ nat (?k + 1)"
    by simp_all
  have my: "real_of_int ?m < ?y" "?y \<le> real_of_int ?m + 1"
    by linarith+
  from lo have "real_of_int (2 ^ nat ?k) \<le> real_of_int ?m" by (simp only: of_int_le_iff)
  with my(1) have "real_of_int (2 ^ nat ?k) < ?y" by linarith
  then have ylo: "2 ^ nat ?k < ?y" by simp
  from hi have "?m + 1 \<le> 2 ^ nat (?k + 1)" by simp
  then have "real_of_int (?m + 1) \<le> real_of_int (2 ^ nat (?k + 1))" by (simp only: of_int_le_iff)
  with my(2) have "?y \<le> real_of_int (2 ^ nat (?k + 1))" by linarith
  then have yhi: "?y \<le> 2 ^ nat (?k + 1)" by simp
  from ylo assms have xhi: "x < 1 / 2 ^ nat ?k"
    by (simp add: field_simps)
  from yhi assms have xlo: "1 / 2 ^ nat (?k + 1) \<le> x"
    by (simp add: field_simps)
  from False have be: "binary_exponent x = - ?k - 1"
    by (simp add: binary_exponent_def)
  from k0 have p1: "pow2 (- ?k - 1) = 1 / 2 ^ nat (?k + 1)"
    by (simp add: pow2_neg)
  from k0 have p2: "pow2 (- ?k - 1 + 1) = 1 / 2 ^ nat ?k"
    by (simp add: pow2_neg)
  from xlo xhi show ?thesis
    by (simp only: be p1 p2)
qed

text \<open>
  The rounding matters for \<open>max_safe_bits\<close>. The float \<open>0.002\<close> is the number
  \<open>1152921504606847 / 2^59\<close>, slightly above two thousandths, so the exact quotient
  \<open>0.5 / 0.002\<close> lies just below 250 and has the integer part 249; the float nearest
  to it is \<open>250.0\<close>, and \<open>int(0.5 / 0.002)\<close> is 250.
\<close>

lemma max_safe_bits_rounds:
  "\<lfloor>(1 / 2) / (1152921504606847 / 576460752303423488 :: real)\<rfloor> = 249 \<and>
   max_safe_bits (ideal_config \<lparr> CLOCK_DRIFT_RATE := 1152921504606847 / 576460752303423488 \<rparr>)
     = Inr 250"
  by code_simp

section \<open>Counting bits\<close>

lemma bitcount_0 [simp]: "bitcount 0 = 0"
  by (simp add: bitcount.simps)

lemma bitcount_double [simp]: "bitcount (2 * n) = bitcount n"
  by (subst bitcount.simps) simp

lemma bitcount_double_plus [simp]: "bitcount (Suc (2 * n)) = Suc (bitcount n)"
  by (subst bitcount.simps) simp

lemma bitcount_double' [simp]: "bitcount (n * 2) = bitcount n"
  by (subst bitcount.simps) simp

lemma bitcount_push_bit [simp]: "bitcount (push_bit k n) = bitcount n"
  by (induction k) (simp_all add: push_bit_double)

lemma mask_Suc_nat: "(mask (Suc r) :: nat) = Suc (2 * mask r)"
proof -
  have "(2::nat) \<le> 2 * 2 ^ r" by simp
  then show ?thesis
    unfolding mask_eq_exp_minus_1 power_Suc by linarith
qed

lemma bitcount_mask [simp]: "bitcount (mask r) = r"
  by (induction r) (simp_all add: mask_Suc_nat)

lemma count_ones_field: "count_ones (push_bit n (mask r)) = r"
proof -
  have "nat \<bar>push_bit n (mask r :: int)\<bar> = push_bit n (mask r)"
    by (simp add: push_bit_nat_eq [symmetric] nat_mask_eq)
  then show ?thesis by (simp add: count_ones_def)
qed

lemma count_ones_0 [simp]: "count_ones 0 = 0"
  by (simp add: count_ones_def)

lemma count_ones_push_bit: "0 \<le> x \<Longrightarrow> count_ones (push_bit n x) = count_ones x"
  by (simp add: count_ones_def push_bit_nat_eq [symmetric])

lemma expected_mask_ok:
  "0 \<le> rho \<Longrightarrow> 0 \<le> slot * rho \<Longrightarrow>
     expected_mask slot rho = Inr (push_bit (nat (slot * rho)) (mask (nat rho)))"
  by (simp add: expected_mask_def py_shl_def mask_eq_exp_minus_1)

lemma expected_mask_Inr:
  "expected_mask slot rho = Inr m \<Longrightarrow>
     0 \<le> rho \<and> 0 \<le> slot * rho \<and> m = push_bit (nat (slot * rho)) (mask (nat rho))"
  by (auto simp: expected_mask_def py_shl_def mask_eq_exp_minus_1 split: if_splits)

text \<open>The sub-fields of two different sub-slots do not overlap.\<close>

lemma field_disjoint:
  fixes a b r :: nat
  assumes "a \<noteq> b"
  shows "push_bit (a * r) (mask r :: int) AND push_bit (b * r) (mask r) = 0"
proof (rule bit_eqI)
  fix j
  have "\<not> (a * r \<le> j \<and> j - a * r < r \<and> b * r \<le> j \<and> j - b * r < r)"
  proof
    assume h: "a * r \<le> j \<and> j - a * r < r \<and> b * r \<le> j \<and> j - b * r < r"
    then have ja: "j < Suc a * r" and jb: "j < Suc b * r" by auto
    from assms consider "Suc a \<le> b" | "Suc b \<le> a" by linarith
    then show False
    proof cases
      case 1
      then have "Suc a * r \<le> b * r" by (rule mult_le_mono1)
      with ja h show False by linarith
    next
      case 2
      then have "Suc b * r \<le> a * r" by (rule mult_le_mono1)
      with jb h show False by linarith
    qed
  qed
  then show "bit (push_bit (a * r) (mask r :: int) AND push_bit (b * r) (mask r)) j = bit (0::int) j"
    by (auto simp: bit_and_iff bit_push_bit_iff_int bit_mask_iff)
qed

lemma lt4_cases: "(b::nat) < 4 \<Longrightarrow> b = 0 \<or> b = 1 \<or> b = 2 \<or> b = 3"
  by arith

lemma count_ones_numeral_simps:
  "count_ones 1 = 1" "count_ones 2 = 1" "count_ones 3 = 2" "count_ones 4 = 1" "count_ones 5 = 2"
  "count_ones 6 = 2" "count_ones 7 = 3" "count_ones 8 = 1" "count_ones 9 = 2" "count_ones 10 = 2"
  "count_ones 11 = 3" "count_ones 12 = 2" "count_ones 13 = 3" "count_ones 14 = 3" "count_ones 15 = 4"
  by code_simp+

lemma nibble_one_flip:
  "b < 4 \<Longrightarrow> count_ones (15 XOR push_bit b 1) = 3 \<and> count_ones (0 XOR push_bit b 1) = 1"
proof -
  assume "b < 4"
  then consider "b = 0" | "b = 1" | "b = 2" | "b = 3" by arith
  then show ?thesis
    by cases (simp_all add: count_ones_numeral_simps)
qed

lemma nibble_two_flips:
  assumes "b < 4" "b' < 4" "b \<noteq> b'"
  shows "count_ones (15 XOR push_bit b 1 XOR push_bit b' 1) = 2"
proof -
  from assms(1) consider "b = 0" | "b = 1" | "b = 2" | "b = 3" by arith
  then show ?thesis
  proof cases
    case 1
    with assms consider "b' = 1" | "b' = 2" | "b' = 3" by arith
    then show ?thesis using 1 by cases (simp_all add: count_ones_numeral_simps)
  next
    case 2
    with assms consider "b' = 0" | "b' = 2" | "b' = 3" by arith
    then show ?thesis using 2 by cases (simp_all add: count_ones_numeral_simps)
  next
    case 3
    with assms consider "b' = 0" | "b' = 1" | "b' = 3" by arith
    then show ?thesis using 3 by cases (simp_all add: count_ones_numeral_simps)
  next
    case 4
    with assms consider "b' = 0" | "b' = 1" | "b' = 2" by arith
    then show ?thesis using 4 by cases (simp_all add: count_ones_numeral_simps)
  qed
qed

section \<open>The verification phase\<close>

lemma nat_slot_mult: "0 \<le> a \<Longrightarrow> 0 \<le> r \<Longrightarrow> nat (a * r) = nat a * nat r"
  by (simp add: nat_mult_distrib)

lemma sub_field_disjoint:
  assumes "c_rho i = rho" "c_rho j = rho" "0 \<le> rho" "0 \<le> c_slot i" "0 \<le> c_slot j"
    and "c_slot i \<noteq> c_slot j"
  shows "sub_field i AND sub_field j = 0"
proof -
  from assms have "nat (c_slot i) \<noteq> nat (c_slot j)" by simp
  from field_disjoint [OF this, of "nat rho"] assms show ?thesis
    by (simp add: sub_field_def nat_mult_distrib)
qed

lemma sub_field_same:
  "c_rho i = c_rho j \<Longrightarrow> c_slot i = c_slot j \<Longrightarrow> sub_field i = sub_field j"
  by (simp add: sub_field_def)

lemma expected_mask_sub_field:
  "0 \<le> c_rho i \<Longrightarrow> 0 \<le> c_slot i \<Longrightarrow> expected_mask (c_slot i) (c_rho i) = Inr (sub_field i)"
  by (simp add: expected_mask_ok sub_field_def)

lemma superimpose_field:
  assumes "\<forall>i\<in>set ctx. c_rho i = rho \<and> 0 \<le> c_slot i" and "0 \<le> rho"
    and "c_rho it = rho" and "0 \<le> c_slot it"
  shows "\<exists>x. superimpose R ctx acc = Inr x \<and>
           x AND sub_field it =
             (acc AND sub_field it) OR
             (if \<exists>i\<in>set ctx. c_epc i \<in> R \<and> c_slot i = c_slot it then sub_field it else 0)"
  using assms(1)
proof (induction ctx arbitrary: acc)
  case Nil
  then show ?case by simp
next
  case (Cons i ctx)
  then have i: "c_rho i = rho" "0 \<le> c_slot i" and rest: "\<forall>i\<in>set ctx. c_rho i = rho \<and> 0 \<le> c_slot i"
    by simp_all
  show ?case
  proof (cases "c_epc i \<in> R")
    case False
    with Cons.IH [OF rest, of acc] show ?thesis by auto
  next
    case True
    have em: "expected_mask (c_slot i) (c_rho i) = Inr (sub_field i)"
      using i assms(2) expected_mask_sub_field [of i] by simp
    from Cons.IH [OF rest, of "acc OR sub_field i"] obtain x where
      x: "superimpose R ctx (acc OR sub_field i) = Inr x"
      and xf: "x AND sub_field it =
             ((acc OR sub_field i) AND sub_field it) OR
             (if \<exists>i\<in>set ctx. c_epc i \<in> R \<and> c_slot i = c_slot it then sub_field it else 0)"
      by blast
    have ov: "sub_field i AND sub_field it = (if c_slot i = c_slot it then sub_field it else 0)"
    proof (cases "c_slot i = c_slot it")
      case True
      with i assms(3) have "sub_field i = sub_field it" by (simp add: sub_field_same)
      with True show ?thesis by simp
    next
      case False
      with sub_field_disjoint [of i rho it] i assms show ?thesis by simp
    qed
    from True em x have "superimpose R (i # ctx) acc = Inr x" by simp
    moreover have "x AND sub_field it =
             (acc AND sub_field it) OR
             (if \<exists>i\<in>set (i # ctx). c_epc i \<in> R \<and> c_slot i = c_slot it then sub_field it else 0)"
    proof -
      have split: "(acc OR sub_field i) AND sub_field it =
                   (acc AND sub_field it) OR (sub_field i AND sub_field it)"
        by (rule bit.conj_disj_distrib2)
      show ?thesis
      proof (cases "c_slot i = c_slot it")
        case same: True
        with True have ex: "\<exists>i\<in>set (i # ctx). c_epc i \<in> R \<and> c_slot i = c_slot it" by auto
        from same ov have "sub_field i AND sub_field it = sub_field it" by simp
        with xf split have "x AND sub_field it =
            ((acc AND sub_field it) OR sub_field it) OR
            (if \<exists>i\<in>set ctx. c_epc i \<in> R \<and> c_slot i = c_slot it then sub_field it else 0)"
          by simp
        also have "\<dots> = (acc AND sub_field it) OR sub_field it"
          by (simp add: or.assoc)
        finally show ?thesis using ex by simp
      next
        case False
        with ov have "sub_field i AND sub_field it = 0" by simp
        with xf split have "x AND sub_field it =
            (acc AND sub_field it) OR
            (if \<exists>i\<in>set ctx. c_epc i \<in> R \<and> c_slot i = c_slot it then sub_field it else 0)"
          by simp
        with False show ?thesis by simp
      qed
    qed
    ultimately show ?thesis by blast
  qed
qed

lemma received_field:
  assumes wf: "well_formed_group rho ctx" and rho: "0 \<le> rho" and it: "it \<in> set ctx"
  shows "\<exists>x. received_bitmap ctx prev = Inr x \<and>
           x AND sub_field it =
             (if c_epc it \<in> actual_responders_set prev then sub_field it else 0)
             XOR (channel_noise_mask prev AND sub_field it)"
proof -
  from wf it have a: "\<forall>i\<in>set ctx. c_rho i = rho \<and> 0 \<le> c_slot i" "c_rho it = rho" "0 \<le> c_slot it"
    by (auto simp: well_formed_group_def)
  from wf have "inj_on c_slot (set ctx)"
    by (simp add: well_formed_group_def distinct_map)
  with it have uniq: "\<And>i. i \<in> set ctx \<Longrightarrow> c_slot i = c_slot it \<Longrightarrow> i = it"
    by (auto dest: inj_onD)
  from superimpose_field [OF a(1) rho a(2) a(3), of "actual_responders_set prev" 0]
  obtain x where x: "superimpose (actual_responders_set prev) ctx 0 = Inr x"
    and xf: "x AND sub_field it =
       (if \<exists>i\<in>set ctx. c_epc i \<in> actual_responders_set prev \<and> c_slot i = c_slot it
        then sub_field it else 0)"
    by auto
  have "(\<exists>i\<in>set ctx. c_epc i \<in> actual_responders_set prev \<and> c_slot i = c_slot it)
        \<longleftrightarrow> c_epc it \<in> actual_responders_set prev"
    using it uniq by blast
  with xf have xf': "x AND sub_field it =
       (if c_epc it \<in> actual_responders_set prev then sub_field it else 0)" by simp
  from x have "received_bitmap ctx prev = Inr (x XOR channel_noise_mask prev)"
    by (simp add: received_bitmap_def)
  moreover have "(x XOR channel_noise_mask prev) AND sub_field it =
       (if c_epc it \<in> actual_responders_set prev then sub_field it else 0)
       XOR (channel_noise_mask prev AND sub_field it)"
    by (simp add: bit.conj_xor_distrib2 xf')
  ultimately show ?thesis by blast
qed

lemma judge_sets:
  "judge received thr ctx v = Inr v' \<Longrightarrow>
     v_present v' = v_present v \<union> c_epc ` {i \<in> set ctx. confirmed received thr i} \<and>
     v_missing v' = v_missing v \<union> c_epc ` {i \<in> set ctx. \<not> confirmed received thr i}"
proof (induction ctx arbitrary: v)
  case Nil
  then show ?case by simp
next
  case (Cons item ctx)
  from Cons.prems obtain cnt where cnt: "match_count received item = Inr cnt"
    and rest: "judge received thr ctx (judge_one thr item cnt v) = Inr v'"
    by (auto split: sum.splits)
  from Cons.IH [OF rest] cnt show ?case
    by (auto simp: judge_one_def confirmed_def)
qed

lemma judge_succeeds:
  "\<forall>i\<in>set ctx. \<exists>c. match_count received i = Inr c \<Longrightarrow> \<exists>v'. judge received thr ctx v = Inr v'"
  by (induction ctx arbitrary: v) auto

lemma match_count_sub_field:
  "0 \<le> c_rho i \<Longrightarrow> 0 \<le> c_slot i \<Longrightarrow>
     match_count received i = Inr (int (count_ones (received AND sub_field i)))"
  by (simp add: match_count_def expected_mask_sub_field)

lemma verdict_by_count:
  assumes wf: "well_formed_group rho (last_sent_context s)" and rho: "0 \<le> rho"
    and it: "it \<in> set (last_sent_context s)"
    and fresh: "c_epc it \<notin> verified_present s \<union> verified_missing s"
  shows "\<exists>s1 f. verify_and_adapt s prev = Inr (s1, f) \<and>
           (c_epc it \<in> verified_present s1 \<longleftrightarrow>
              vote_threshold (last_sent_context s) \<le>
                int (count_ones ((if c_epc it \<in> actual_responders_set prev then sub_field it else 0)
                                 XOR (channel_noise_mask prev AND sub_field it)))) \<and>
           (c_epc it \<in> verified_missing s1 \<longleftrightarrow>
              \<not> vote_threshold (last_sent_context s) \<le>
                int (count_ones ((if c_epc it \<in> actual_responders_set prev then sub_field it else 0)
                                 XOR (channel_noise_mask prev AND sub_field it))))"
proof -
  let ?ctx = "last_sent_context s"
  let ?thr = "vote_threshold ?ctx"
  let ?v0 = "\<lparr> v_present = verified_present s, v_missing = verified_missing s,
               total_checks = 0, error_cnt = 0, error_flag = False \<rparr>"
  from it have ne: "?ctx \<noteq> []" by auto
  from received_field [OF wf rho it, of prev] obtain x where
    x: "received_bitmap ?ctx prev = Inr x" and
    xf: "x AND sub_field it =
           (if c_epc it \<in> actual_responders_set prev then sub_field it else 0)
           XOR (channel_noise_mask prev AND sub_field it)"
    by blast
  from wf rho have mc: "\<forall>i\<in>set ?ctx. match_count x i = Inr (int (count_ones (x AND sub_field i)))"
    by (auto simp: well_formed_group_def intro!: match_count_sub_field)
  then have "\<forall>i\<in>set ?ctx. \<exists>c. match_count x i = Inr c" by blast
  from judge_succeeds [OF this, of ?thr ?v0] obtain v where v: "judge x ?thr ?ctx ?v0 = Inr v"
    by blast
  from judge_sets [OF v] have sets:
    "v_present v = verified_present s \<union> c_epc ` {i \<in> set ?ctx. confirmed x ?thr i}"
    "v_missing v = verified_missing s \<union> c_epc ` {i \<in> set ?ctx. \<not> confirmed x ?thr i}"
    by simp_all
  from wf have inj: "inj_on c_epc (set ?ctx)"
    by (simp add: well_formed_group_def distinct_map)
  have mem: "c_epc it \<in> c_epc ` {i \<in> set ?ctx. P i} \<longleftrightarrow> P it" for P
  proof -
    have "{i \<in> set ?ctx. P i} \<subseteq> set ?ctx" by blast
    from inj_on_image_mem_iff [OF inj it this] it show ?thesis by simp
  qed
  from fresh have "c_epc it \<in> v_present v \<longleftrightarrow> c_epc it \<in> c_epc ` {i \<in> set ?ctx. confirmed x ?thr i}"
    unfolding sets by blast
  then have p: "c_epc it \<in> v_present v \<longleftrightarrow> confirmed x ?thr it"
    by (simp only: mem)
  from fresh have "c_epc it \<in> v_missing v \<longleftrightarrow> c_epc it \<in> c_epc ` {i \<in> set ?ctx. \<not> confirmed x ?thr i}"
    unfolding sets by blast
  then have m: "c_epc it \<in> v_missing v \<longleftrightarrow> \<not> confirmed x ?thr it"
    by (simp only: mem)
  have c: "confirmed x ?thr it \<longleftrightarrow> ?thr \<le> int (count_ones (x AND sub_field it))"
    using mc it by (simp add: confirmed_def)
  from ne x v have "verify_and_adapt s prev =
      Inr (s \<lparr> verified_present := v_present v, verified_missing := v_missing v,
               current_rho := adapt s v, last_sent_context := [] \<rparr>, error_flag v)"
    by (simp add: verify_and_adapt_def)
  with p m c xf show ?thesis by simp
qed

section \<open>The perfect-seed search\<close>

text \<open>
  Claim C6. For a list holding a single identifier value and a positive modulus,
  \<open>_find_perfect_seed\<close> returns seed 0: the first value of a seed always finds the set
  of taken sub-slots empty, so the search stops at the first seed of \<open>range(16)\<close> and
  never returns \<open>None\<close>.
\<close>

theorem find_perfect_seed_singleton:
  "0 < mod_size \<Longrightarrow> find_perfect_seed [val] mod_size = Inr (Some 0)"
proof -
  assume pos: "0 < mod_size"
  have range16: "[0..15] = (0::int) # [1..15]"
    by (simp add: upto_rec1)
  from pos have "seed_collides 0 mod_size [val] {} = Inr False"
    by simp
  then show ?thesis
    unfolding find_perfect_seed_def range16 by simp
qed

theorem find_perfect_seed_singleton_witness:
  "(0::int) < 4 \<and> find_perfect_seed [11] 4 = Inr (Some 0)"
  using find_perfect_seed_singleton [of 4 11] by simp

section \<open>Adaptation of the redundancy\<close>

lemma judge_counts:
  "judge received thr ctx v = Inr v' \<Longrightarrow>
     total_checks v' = total_checks v + int (length ctx) \<and>
     error_cnt v' = error_cnt v + int (length (filter (imperfect received thr) ctx))"
proof (induction ctx arbitrary: v)
  case Nil
  then show ?case by simp
next
  case (Cons item ctx)
  from Cons.prems obtain cnt where cnt: "match_count received item = Inr cnt"
    and rest: "judge received thr ctx (judge_one thr item cnt v) = Inr v'"
    by (auto split: sum.splits)
  from Cons.IH [OF rest] cnt show ?case
    by (auto simp: judge_one_def imperfect_def)
qed

lemma build_context_rho:
  "build_context items seed n rho = Inr ctx \<Longrightarrow> \<forall>it\<in>set ctx. c_rho it = rho"
  by (induction items arbitrary: ctx) (auto split: if_splits sum.splits)

lemma schedule_rho:
  "schedule s f = Inr (cmd, s') \<Longrightarrow>
     current_rho s' = current_rho s \<and> (\<forall>it\<in>set (last_sent_context s'). c_rho it = current_rho s)"
  by (auto simp: schedule_def Let_def split: if_splits sum.splits dest: build_context_rho)

text \<open>
  Claim C5. In adaptive mode, after a call that verified a group of at least one tag,
  the redundancy is 2 when the imperfect fraction of that group is at most 3/10 and 4
  otherwise, and every tag of the group scheduled by the same call is sent with this
  redundancy. The value depends on the verified group and its slot result only.
\<close>

theorem adaptation_rule:
  assumes "is_adaptive s" and "last_sent_context s \<noteq> []"
    and "get_next_command s prev = Inr (cmd, s')"
  shows "current_rho s' = (if imperfect_fraction (last_sent_context s) prev \<le> 3 / 10 then 2 else 4)
         \<and> (\<forall>it\<in>set (last_sent_context s'). c_rho it = current_rho s')"
proof -
  from assms(3) obtain s1 flag where va: "verify_and_adapt s prev = Inr (s1, flag)"
    by (auto simp: get_next_command_def split: sum.splits)
  from va assms(2) obtain received v where
    rec: "received_bitmap (last_sent_context s) prev = Inr received" and
    jud: "judge received (vote_threshold (last_sent_context s)) (last_sent_context s)
            \<lparr> v_present = verified_present s, v_missing = verified_missing s,
              total_checks = 0, error_cnt = 0, error_flag = False \<rparr> = Inr v" and
    s1: "current_rho s1 = adapt s v"
    by (auto simp: verify_and_adapt_def split: sum.splits)
  from judge_counts [OF jud]
  have cnt: "total_checks v = int (length (last_sent_context s))"
    "error_cnt v = int (length (filter (imperfect received (vote_threshold (last_sent_context s)))
                                  (last_sent_context s)))"
    by simp_all
  from assms(2) have pos: "0 < length (last_sent_context s)" by simp
  have rho1: "current_rho s1 =
      (if imperfect_fraction (last_sent_context s) prev \<le> 3 / 10 then 2 else 4)"
    using assms(1) pos by (simp add: s1 adapt_def cnt imperfect_fraction_def rec)
  show ?thesis
  proof (cases "cursor s1 \<ge> total_tags s1")
    case True
    with assms(3) va have "s' = s1 \<lparr> is_running := False \<rparr>"
      by (auto simp: get_next_command_def)
    moreover from va assms(2) have "last_sent_context s1 = []"
      by (auto simp: verify_and_adapt_def split: sum.splits)
    ultimately show ?thesis using rho1 by simp
  next
    case False
    with assms(3) va have "schedule s1 flag = Inr (cmd, s')"
      by (auto simp: get_next_command_def)
    from schedule_rho [OF this] rho1 show ?thesis by simp
  qed
qed

theorem adaptation_rule_witness:
  "is_adaptive tag1_pending \<and> last_sent_context tag1_pending \<noteq> [] \<and>
   imperfect_fraction (last_sent_context tag1_pending) tag1_replies = 0 \<and>
   (\<exists>cmd s'. get_next_command tag1_pending tag1_replies = Inr (cmd, s') \<and> current_rho s' = 2)"
proof -
  have a: "is_adaptive tag1_pending" and c: "last_sent_context tag1_pending \<noteq> []"
    by (simp_all add: tag1_pending_def)
  have "case get_next_command tag1_pending tag1_replies of Inl e \<Rightarrow> False | Inr x \<Rightarrow> True"
    by code_simp
  then obtain cmd s' where step: "get_next_command tag1_pending tag1_replies = Inr (cmd, s')"
    by (auto split: sum.splits)
  have frac: "imperfect_fraction (last_sent_context tag1_pending) tag1_replies = 0"
    by code_simp
  from adaptation_rule [OF a c step] frac have "current_rho s' = 2" by simp
  with a c frac step show ?thesis by blast
qed

section \<open>Majority vote\<close>

lemma mask4: "mask 4 = (15::int)"
  by (simp add: mask_eq_exp_minus_1)

lemma bit_in_nibble: "b < 4 \<Longrightarrow> push_bit b 1 AND 15 = (push_bit b 1 :: int)"
proof -
  assume "b < 4"
  then consider "b = 0" | "b = 1" | "b = 2" | "b = 3" by arith
  then show ?thesis by cases simp_all
qed

lemma flipped_field:
  assumes "c_rho it = 4" and "noise AND sub_field it = 0" and "b < 4"
  shows "(noise XOR push_bit (nat (c_slot it * c_rho it) + b) 1) AND sub_field it =
           push_bit (nat (c_slot it * 4)) (push_bit b 1)"
proof -
  let ?n = "nat (c_slot it * 4)"
  have sf: "sub_field it = push_bit ?n 15"
    using assms(1) by (simp add: sub_field_def mask4)
  have "push_bit (?n + b) 1 AND push_bit ?n 15 = push_bit ?n (push_bit b 1 AND (15::int))"
    by (simp only: push_bit_and push_bit_push_bit)
  also have "\<dots> = push_bit ?n (push_bit b 1)"
    using assms(3) by (simp only: bit_in_nibble)
  finally have "push_bit (?n + b) 1 AND sub_field it = push_bit ?n (push_bit b (1::int))"
    by (simp only: sf)
  with assms(1,2) show ?thesis
    by (simp add: bit.conj_xor_distrib2)
qed

text \<open>
  Claim C4. Take a group verified at redundancy 4 (every tag in a sub-slot of its own),
  a tag of the group not yet in a verification set, and a slot result whose noise mask
  is clear inside the 4-bit sub-field of the tag; the responder set is that of the
  result throughout. Then the tag is confirmed present exactly when it responded; after
  flipping any one bit \<open>b\<close> of the noise mask inside the sub-field the verdict is the
  same (a responder keeps 3 of 4 ones, a non-responder has 1); and after flipping two
  different bits \<open>b\<close> and \<open>b'\<close> inside the sub-field a responding tag is confirmed
  missing.
\<close>

theorem majority_vote_tolerance:
  assumes wf: "well_formed_group 4 (last_sent_context s)"
    and it: "it \<in> set (last_sent_context s)"
    and fresh: "c_epc it \<notin> verified_present s \<union> verified_missing s"
    and clean: "channel_noise_mask prev AND sub_field it = 0"
    and b: "b < 4" "b' < 4" "b \<noteq> b'"
  shows "(\<exists>s0 f. verify_and_adapt s prev = Inr (s0, f) \<and>
            (c_epc it \<in> verified_present s0 \<longleftrightarrow> c_epc it \<in> actual_responders_set prev) \<and>
            (c_epc it \<in> verified_missing s0 \<longleftrightarrow> c_epc it \<notin> actual_responders_set prev))
       \<and> (\<exists>s1 f. verify_and_adapt s (flip_noise_bit it b prev) = Inr (s1, f) \<and>
            (c_epc it \<in> verified_present s1 \<longleftrightarrow> c_epc it \<in> actual_responders_set prev) \<and>
            (c_epc it \<in> verified_missing s1 \<longleftrightarrow> c_epc it \<notin> actual_responders_set prev))
       \<and> (c_epc it \<in> actual_responders_set prev \<longrightarrow>
            (\<exists>s2 f. verify_and_adapt s (flip_noise_bit it b' (flip_noise_bit it b prev)) = Inr (s2, f) \<and>
               c_epc it \<in> verified_missing s2 \<and> c_epc it \<notin> verified_present s2))"
proof -
  let ?n = "nat (c_slot it * 4)"
  let ?resp = "c_epc it \<in> actual_responders_set prev"
  from wf it have rho: "c_rho it = 4" and slot: "0 \<le> c_slot it"
    by (auto simp: well_formed_group_def)
  from it have "hd (last_sent_context s) \<in> set (last_sent_context s)"
    by (cases "last_sent_context s") auto
  with wf have thr: "vote_threshold (last_sent_context s) = 3"
    by (auto simp: well_formed_group_def vote_threshold_def)
  have sf: "sub_field it = push_bit ?n 15"
    using rho by (simp add: sub_field_def mask4)
  have resp1: "actual_responders_set (flip_noise_bit it b prev) = actual_responders_set prev"
    and resp2: "actual_responders_set (flip_noise_bit it b' (flip_noise_bit it b prev))
                  = actual_responders_set prev"
    by (simp_all add: actual_responders_set_def flip_noise_bit_def)
  have f1: "channel_noise_mask (flip_noise_bit it b prev) AND sub_field it
              = push_bit ?n (push_bit b 1)"
    using flipped_field [OF rho clean b(1)] by (simp add: flip_noise_bit_def)
  have f2: "channel_noise_mask (flip_noise_bit it b' (flip_noise_bit it b prev)) AND sub_field it
              = push_bit ?n (push_bit b 1 XOR push_bit b' 1)"
  proof -
    have "channel_noise_mask (flip_noise_bit it b' (flip_noise_bit it b prev)) AND sub_field it
            = (channel_noise_mask (flip_noise_bit it b prev) AND sub_field it)
              XOR (push_bit (nat (c_slot it * c_rho it) + b') 1 AND sub_field it)"
      by (simp add: flip_noise_bit_def bit.conj_xor_distrib2)
    also have "push_bit (nat (c_slot it * c_rho it) + b') 1 AND sub_field it
                 = push_bit ?n (push_bit b' 1)"
      using flipped_field [OF rho _ b(2), of 0] by simp
    finally show ?thesis by (simp add: f1 push_bit_xor)
  qed
  have shift: "count_ones (push_bit ?n x XOR push_bit ?n y) = count_ones (x XOR y)"
    if "0 \<le> x" "0 \<le> y" for x y :: int
  proof -
    from that have "0 \<le> x XOR y" by simp
    then have "count_ones (push_bit ?n (x XOR y)) = count_ones (x XOR y)"
      by (rule count_ones_push_bit)
    then show ?thesis by (simp only: push_bit_xor)
  qed
  have pb: "(0::int) \<le> push_bit b 1" "(0::int) \<le> push_bit b 1 XOR push_bit b' 1"
    by simp_all
  have c0: "count_ones ((if ?resp then sub_field it else 0) XOR 0) = (if ?resp then 4 else 0)"
    by (simp add: sf count_ones_push_bit count_ones_numeral_simps)
  have c1: "count_ones ((if ?resp then sub_field it else 0) XOR push_bit ?n (push_bit b 1))
              = (if ?resp then 3 else 1)"
  proof (cases ?resp)
    case True
    have "count_ones (push_bit ?n 15 XOR push_bit ?n (push_bit b 1))
            = count_ones (15 XOR push_bit b (1::int))"
      by (rule shift) simp_all
    also have "\<dots> = 3" using nibble_one_flip [OF b(1)] by blast
    finally show ?thesis using True by (simp only: sf if_True)
  next
    case False
    have "count_ones (0 XOR push_bit ?n (push_bit b 1)) = count_ones (push_bit ?n (push_bit b (1::int)))"
      by simp
    also have "\<dots> = count_ones (push_bit b (1::int))"
      by (rule count_ones_push_bit) simp
    also have "\<dots> = 1" using nibble_one_flip [OF b(1)] by simp
    finally show ?thesis using False by (simp only: if_False)
  qed
  have c2: "?resp \<Longrightarrow>
      count_ones (sub_field it XOR push_bit ?n (push_bit b 1 XOR push_bit b' 1)) = 2"
  proof -
    have "count_ones (push_bit ?n 15 XOR push_bit ?n (push_bit b 1 XOR push_bit b' 1))
            = count_ones (15 XOR (push_bit b 1 XOR push_bit b' (1::int)))"
      by (rule shift) simp_all
    also have "\<dots> = 2" by (rule nibble_two_flips [OF b])
    finally show ?thesis by (simp only: sf)
  qed
  have wf4: "(0::int) \<le> 4" by simp
  have verdict: "\<exists>s1 f. verify_and_adapt s r = Inr (s1, f) \<and>
           (c_epc it \<in> verified_present s1 \<longleftrightarrow> 3 \<le> int k) \<and>
           (c_epc it \<in> verified_missing s1 \<longleftrightarrow> \<not> 3 \<le> int k)"
    if "actual_responders_set r = actual_responders_set prev"
      and "channel_noise_mask r AND sub_field it = m"
      and "count_ones ((if ?resp then sub_field it else 0) XOR m) = k" for r m k
    using verdict_by_count [OF wf wf4 it fresh, of r]
    unfolding thr that(1) that(2) that(3) by blast
  have base: "\<exists>s0 f. verify_and_adapt s prev = Inr (s0, f) \<and>
            (c_epc it \<in> verified_present s0 \<longleftrightarrow> ?resp) \<and>
            (c_epc it \<in> verified_missing s0 \<longleftrightarrow> \<not> ?resp)"
    using verdict [OF refl clean c0] by (cases ?resp) simp_all
  have one: "\<exists>s1 f. verify_and_adapt s (flip_noise_bit it b prev) = Inr (s1, f) \<and>
            (c_epc it \<in> verified_present s1 \<longleftrightarrow> ?resp) \<and>
            (c_epc it \<in> verified_missing s1 \<longleftrightarrow> \<not> ?resp)"
    using verdict [OF resp1 f1 c1] by (cases ?resp) simp_all
  have two: "?resp \<longrightarrow>
            (\<exists>s2 f. verify_and_adapt s (flip_noise_bit it b' (flip_noise_bit it b prev)) = Inr (s2, f) \<and>
               c_epc it \<in> verified_missing s2 \<and> c_epc it \<notin> verified_present s2)"
  proof
    assume r: ?resp
    then have "count_ones ((if ?resp then sub_field it else 0)
                 XOR push_bit ?n (push_bit b 1 XOR push_bit b' 1)) = 2"
      using c2 by (simp only: if_True)
    from verdict [OF resp2 f2 this]
    show "\<exists>s2 f. verify_and_adapt s (flip_noise_bit it b' (flip_noise_bit it b prev)) = Inr (s2, f) \<and>
               c_epc it \<in> verified_missing s2 \<and> c_epc it \<notin> verified_present s2"
      by auto
  qed
  from base one two show ?thesis by blast
qed

theorem majority_vote_tolerance_witness:
  "well_formed_group 4 (last_sent_context tag1_pending) \<and>
   channel_noise_mask tag1_replies
     AND sub_field \<lparr> c_epc = ''000000000000000000000001'', c_slot = 0, c_rho = 4 \<rparr> = 0 \<and>
   (\<exists>s1 f. verify_and_adapt tag1_pending
              (flip_noise_bit \<lparr> c_epc = ''000000000000000000000001'', c_slot = 0, c_rho = 4 \<rparr>
                 0 tag1_replies) = Inr (s1, f) \<and>
            ''000000000000000000000001'' \<in> verified_present s1) \<and>
   (\<exists>s2 f. verify_and_adapt tag1_pending
              (flip_noise_bit \<lparr> c_epc = ''000000000000000000000001'', c_slot = 0, c_rho = 4 \<rparr> 1
                 (flip_noise_bit \<lparr> c_epc = ''000000000000000000000001'', c_slot = 0, c_rho = 4 \<rparr>
                    0 tag1_replies)) = Inr (s2, f) \<and>
            ''000000000000000000000001'' \<in> verified_missing s2)"
proof -
  let ?it = "\<lparr> c_epc = ''000000000000000000000001'', c_slot = 0, c_rho = 4 \<rparr>"
  have wf: "well_formed_group 4 (last_sent_context tag1_pending)"
    by (simp add: well_formed_group_def tag1_pending_def)
  have it: "?it \<in> set (last_sent_context tag1_pending)"
    by (simp add: tag1_pending_def)
  have fresh: "c_epc ?it \<notin> verified_present tag1_pending \<union> verified_missing tag1_pending"
    by (simp add: tag1_pending_def)
  have clean: "channel_noise_mask tag1_replies AND sub_field ?it = 0"
    by (simp add: tag1_replies_def)
  have resp: "c_epc ?it \<in> actual_responders_set tag1_replies"
    by (simp add: actual_responders_set_def tag1_replies_def)
  have b: "(0::nat) < 4" "(1::nat) < 4" "(0::nat) \<noteq> 1" by simp_all
  from majority_vote_tolerance [OF wf it fresh clean b] resp
  have "(\<exists>s1 f. verify_and_adapt tag1_pending (flip_noise_bit ?it 0 tag1_replies) = Inr (s1, f) \<and>
            ''000000000000000000000001'' \<in> verified_present s1)"
    and "(\<exists>s2 f. verify_and_adapt tag1_pending
              (flip_noise_bit ?it 1 (flip_noise_bit ?it 0 tag1_replies)) = Inr (s2, f) \<and>
            ''000000000000000000000001'' \<in> verified_missing s2)"
    by auto
  with wf clean show ?thesis by blast
qed

section \<open>Idle results\<close>

lemma schedule_sets:
  "schedule s f = Inr (cmd, s') \<Longrightarrow>
     verified_present s' = verified_present s \<and> verified_missing s' = verified_missing s"
  by (auto simp: schedule_def Let_def split: if_splits sum.splits)

lemma superimpose_none: "superimpose {} ctx acc = Inr acc"
  by (induction ctx) simp_all

lemma get_next_command_sets:
  assumes "get_next_command s prev = Inr (cmd, s')"
  obtains s1 f where "verify_and_adapt s prev = Inr (s1, f)"
    and "verified_present s' = verified_present s1" and "verified_missing s' = verified_missing s1"
proof -
  from assms obtain s1 f where va: "verify_and_adapt s prev = Inr (s1, f)"
    by (auto simp: get_next_command_def split: sum.splits)
  show thesis
  proof (cases "cursor s1 \<ge> total_tags s1")
    case True
    with assms va have "s' = s1 \<lparr> is_running := False \<rparr>"
      by (auto simp: get_next_command_def)
    with va that show thesis by simp
  next
    case False
    with assms va have "schedule s1 f = Inr (cmd, s')"
      by (auto simp: get_next_command_def)
    from schedule_sets [OF this] va that show thesis by simp
  qed
qed

text \<open>
  When a call with a pending context gets a result whose status is idle, the responder
  set is empty whatever identifiers the result records, and the received bitmap is the
  noise mask of the result alone. If that mask has fewer ones than the vote threshold
  in the sub-field of every tag, the whole group is confirmed missing.
\<close>

lemma quiet_idle_group_missing:
  assumes ctx: "last_sent_context s \<noteq> []" and idle: "status prev = IDLE"
    and quiet: "\<forall>it\<in>set (last_sent_context s). \<forall>c.
                  match_count (channel_noise_mask prev) it = Inr c
                  \<longrightarrow> c < vote_threshold (last_sent_context s)"
    and step: "get_next_command s prev = Inr (cmd, s')"
  shows "c_epc ` set (last_sent_context s) \<subseteq> verified_missing s'
         \<and> verified_present s' = verified_present s"
proof -
  let ?ctx = "last_sent_context s"
  from step obtain s1 f where va: "verify_and_adapt s prev = Inr (s1, f)"
    and sets: "verified_present s' = verified_present s1" "verified_missing s' = verified_missing s1"
    by (rule get_next_command_sets)
  from idle have rec: "received_bitmap ?ctx prev = Inr (channel_noise_mask prev)"
    by (simp add: received_bitmap_def actual_responders_set_def superimpose_none)
  from va ctx rec obtain v where
    jud: "judge (channel_noise_mask prev) (vote_threshold ?ctx) ?ctx
            \<lparr> v_present = verified_present s, v_missing = verified_missing s,
              total_checks = 0, error_cnt = 0, error_flag = False \<rparr> = Inr v"
    and s1: "verified_present s1 = v_present v" "verified_missing s1 = v_missing v"
    by (auto simp: verify_and_adapt_def split: sum.splits)
  from quiet have none: "\<forall>it\<in>set ?ctx. \<not> confirmed (channel_noise_mask prev) (vote_threshold ?ctx) it"
    by (auto simp: confirmed_def split: sum.splits)
  then have "{i \<in> set ?ctx. confirmed (channel_noise_mask prev) (vote_threshold ?ctx) i} = {}"
    and "{i \<in> set ?ctx. \<not> confirmed (channel_noise_mask prev) (vote_threshold ?ctx) i} = set ?ctx"
    by blast+
  with judge_sets [OF jud] have "v_present v = verified_present s"
    and "v_missing v = verified_missing s \<union> c_epc ` set ?ctx"
    by simp_all
  with sets s1 show ?thesis by auto
qed

text \<open>The kernel itself reports a zero noise mask with every idle result.\<close>

lemma impair_idle_noise:
  "impair A R config cmd st resolved r = Inr (IDLE, resolved', noise_mask, extra, r')
   \<Longrightarrow> noise_mask = 0"
  by (auto simp: impair_def Let_def split: if_splits prod.splits sum.splits)

lemma run_slot_idle_noise:
  fixes ks ks' :: "('s, 'r) kernel"
  assumes "run_slot A R config present_tags cmd ks = Inr ks'"
    and "status (prev_result ks') = IDLE"
  shows "channel_noise_mask (prev_result ks') = 0"
proof -
  from assms(1) obtain st resolved and ks1 :: "('s, 'r) kernel"
      and st' resolved' noise_mask extra r' where
    "impair A R config cmd st resolved (rng ks1) = Inr (st', resolved', noise_mask, extra, r')"
    and ks': "status (prev_result ks') = st'" "channel_noise_mask (prev_result ks') = noise_mask"
    by (auto simp: run_slot_def split: sum.splits)
  with assms(2) show ?thesis
    using impair_idle_noise by fastforce
qed

text \<open>A pending context was left by the scheduling phase of the call before, with a
  non-zero redundancy in every entry.\<close>

lemma verify_and_adapt_clears:
  "verify_and_adapt s prev = Inr (s1, f) \<Longrightarrow> last_sent_context s1 = []"
  by (auto simp: verify_and_adapt_def split: if_splits sum.splits)

lemma schedule_rho_nonzero: "schedule s f = Inr (cmd, s') \<Longrightarrow> current_rho s \<noteq> 0"
  by (auto simp: schedule_def Let_def split: if_splits)

lemma pending_rho:
  assumes "get_next_command a pr = Inr (cmd, s)" and "last_sent_context s \<noteq> []"
  shows "\<exists>rho. rho \<noteq> 0 \<and> (\<forall>it\<in>set (last_sent_context s). c_rho it = rho)"
proof -
  from assms(1) obtain s1 f where va: "verify_and_adapt a pr = Inr (s1, f)"
    by (auto simp: get_next_command_def split: sum.splits)
  show ?thesis
  proof (cases "cursor s1 \<ge> total_tags s1")
    case True
    with assms(1) va have "s = s1 \<lparr> is_running := False \<rparr>"
      by (auto simp: get_next_command_def)
    with verify_and_adapt_clears [OF va] assms(2) show ?thesis by simp
  next
    case False
    with assms(1) va have "schedule s1 f = Inr (cmd, s)"
      by (auto simp: get_next_command_def)
    from schedule_rho [OF this] schedule_rho_nonzero [OF this] show ?thesis by blast
  qed
qed

text \<open>
  Claim C10. The kernel sends the command of a call that left a group pending and hands
  the result of the slot to the next call. If the status of that result is idle (no tag
  answered, or the whole packet was lost), the protocol takes the responder set to be
  empty whatever identifiers the result records, and the call confirms every tag of the
  group missing and none present: the kernel reports a zero noise mask with every idle
  result, and the vote threshold of a scheduled group is at least one.
\<close>

theorem idle_slot_marks_group_missing:
  fixes ks ks' :: "('s, 'r) kernel"
  assumes sent: "get_next_command a pr = Inr (cmd, s)"
    and ctx: "last_sent_context s \<noteq> []"
    and slot: "run_slot A R config present_tags cmd ks = Inr ks'"
    and idle: "status (prev_result ks') = IDLE"
    and step: "get_next_command s (prev_result ks') = Inr (cmd', s')"
  shows "actual_responders_set (prev_result ks') = {}
         \<and> c_epc ` set (last_sent_context s) \<subseteq> verified_missing s'
         \<and> verified_present s' = verified_present s"
proof -
  let ?ctx = "last_sent_context s"
  let ?prev = "prev_result ks'"
  from run_slot_idle_noise [OF slot idle] have nz: "channel_noise_mask ?prev = 0" .
  from pending_rho [OF sent ctx] obtain rho where rho0: "rho \<noteq> 0"
    and uni: "\<forall>it\<in>set ?ctx. c_rho it = rho"
    by blast
  from ctx have hd: "hd ?ctx \<in> set ?ctx" by simp
  from step obtain s1 f where va: "verify_and_adapt s ?prev = Inr (s1, f)"
    by (rule get_next_command_sets)
  from idle nz have rec: "received_bitmap ?ctx ?prev = Inr 0"
    by (simp add: received_bitmap_def actual_responders_set_def superimpose_none)
  from va ctx rec obtain v where
    "judge 0 (vote_threshold ?ctx) ?ctx
            \<lparr> v_present = verified_present s, v_missing = verified_missing s,
              total_checks = 0, error_cnt = 0, error_flag = False \<rparr> = Inr v"
    by (auto simp: verify_and_adapt_def split: sum.splits)
  then obtain c where "match_count 0 (hd ?ctx) = Inr c"
    using ctx by (cases ?ctx) (auto split: sum.splits)
  then obtain m where "expected_mask (c_slot (hd ?ctx)) (c_rho (hd ?ctx)) = Inr m"
    by (auto simp: match_count_def split: sum.splits)
  from expected_mask_Inr [OF this] uni hd rho0 have "1 \<le> c_rho (hd ?ctx)"
    by auto
  then have thr: "1 \<le> vote_threshold ?ctx"
    by (simp add: vote_threshold_def)
  have quiet: "\<forall>it\<in>set ?ctx. \<forall>c.
                 match_count (channel_noise_mask ?prev) it = Inr c \<longrightarrow> c < vote_threshold ?ctx"
    using thr nz by (auto simp: match_count_def split: sum.splits)
  from idle have "actual_responders_set ?prev = {}"
    by (simp add: actual_responders_set_def)
  with quiet_idle_group_missing [OF ctx idle quiet step] show ?thesis by simp
qed

text \<open>
  A slot in which the packet is lost: \<open>tag1\<close> is in the field and answers, the result
  records its identifier with the status idle, and the next call confirms it missing.
\<close>

theorem idle_slot_marks_group_missing_witness:
  "\<exists>cmd ks' cmd' s'.
     get_next_command (initialize flagship [tag1]) initial_result = Inr (cmd, tag1_pending)
     \<and> last_sent_context tag1_pending \<noteq> []
     \<and> run_slot LODS no_random lossy_config [tag1] cmd (fresh_kernel tag1_pending ()) = Inr ks'
     \<and> status (prev_result ks') = IDLE \<and> tag_ids (prev_result ks') = [epc tag1]
     \<and> get_next_command tag1_pending (prev_result ks') = Inr (cmd', s')
     \<and> epc tag1 \<in> verified_missing s' \<and> verified_present s' = {}"
proof -
  have c: "last_sent_context tag1_pending \<noteq> []"
    and p: "verified_present tag1_pending = {}"
    and e: "c_epc ` set (last_sent_context tag1_pending) = {epc tag1}"
    by (simp_all add: tag1_pending_def tag1_def)
  let ?sent = "get_next_command (initialize flagship [tag1]) initial_result"
  have run: "case ?sent of
          Inl e \<Rightarrow> False
        | Inr (cmd, s) \<Rightarrow>
            s = tag1_pending \<and>
            (case run_slot LODS no_random lossy_config [tag1] cmd (fresh_kernel tag1_pending ()) of
               Inl e \<Rightarrow> False
             | Inr ks' \<Rightarrow>
                 status (prev_result ks') = IDLE \<and> tag_ids (prev_result ks') = [epc tag1] \<and>
                 (case get_next_command tag1_pending (prev_result ks') of
                    Inl e \<Rightarrow> False
                  | Inr x \<Rightarrow> True))"
    by code_simp
  then obtain cmd s where sent0: "?sent = Inr (cmd, s)"
    by (cases ?sent) auto
  let ?slot = "run_slot LODS no_random lossy_config [tag1] cmd (fresh_kernel tag1_pending ())"
  from run sent0 have sent: "?sent = Inr (cmd, tag1_pending)"
    and run2: "case ?slot of
               Inl e \<Rightarrow> False
             | Inr ks' \<Rightarrow>
                 status (prev_result ks') = IDLE \<and> tag_ids (prev_result ks') = [epc tag1] \<and>
                 (case get_next_command tag1_pending (prev_result ks') of
                    Inl e \<Rightarrow> False
                  | Inr x \<Rightarrow> True)"
    by simp_all
  from run2 obtain ks' :: "(lods, unit) kernel" where slot: "?slot = Inr ks'"
    by (cases ?slot) auto
  let ?step = "get_next_command tag1_pending (prev_result ks')"
  from run2 slot have idle: "status (prev_result ks') = IDLE"
    and ids: "tag_ids (prev_result ks') = [epc tag1]"
    and run3: "case ?step of Inl e \<Rightarrow> False | Inr x \<Rightarrow> True"
    by simp_all
  from run3 obtain cmd' s' where step: "?step = Inr (cmd', s')"
    by (cases ?step) auto
  from idle_slot_marks_group_missing [OF sent c slot idle step] p e
  have "epc tag1 \<in> verified_missing s'" "verified_present s' = {}"
    by simp_all
  with sent c slot idle ids step show ?thesis by blast
qed

section \<open>The slot-count ceiling\<close>

lemma stuck_step: "get_next_command stuck prev = Inr (stuck_cmd, stuck)"
  by (simp add: get_next_command_def verify_and_adapt_def stuck_def initialize_def
        LODS_MTI_Algorithm_def schedule_def schedule_loop.simps py_slice_def py_bound_def
        stuck_cmd_def Let_def)

lemma stuck_cmd_payload: "\<not> payload_bits stuck_cmd < 0"
  by (simp add: stuck_cmd_def)

lemma stuck_unfinished: "\<not> is_finished stuck"
  by (simp add: is_finished_def stuck_def initialize_def LODS_MTI_Algorithm_def Let_def)

lemma stuck_slot:
  fixes ks :: "(lods, 'r) kernel"
  shows "run_slot LODS R ideal_config [tag1] stuck_cmd ks =
     Inr (ks \<lparr> total_slots := total_slots ks + 1, success_slots := success_slots ks + 1,
               prev_result := \<lparr> status = SUCCESS, tag_ids = [epc tag1],
                                 resolved_data = Some [epc tag1], channel_noise_mask = 0,
                                 extra_info = None \<rparr> \<rparr>)"
  by (simp add: run_slot_def responding_tags_def stuck_cmd_def protocol_logic_def
        classify_def impair_def ideal_config_def Let_def)

lemma run_loop_bound:
  "run_loop A R config present_tags ks = Inr ks' \<Longrightarrow> total_slots ks \<le> MAX_SLOTS_LIMIT + 1
   \<Longrightarrow> total_slots ks' \<le> MAX_SLOTS_LIMIT + 1"
proof (induction A R config present_tags ks rule: run_loop.induct)
  case (1 A R config present_tags ks)
  show ?case
  proof (cases "alg_is_finished A (algorithm ks) \<or> total_slots ks > MAX_SLOTS_LIMIT")
    case True
    with "1.prems" show ?thesis
      by (subst (asm) run_loop.simps) (auto split: if_splits)
  next
    case False
    with "1.prems"(1) obtain cmd a' where
      cmd: "alg_get_next_command A (algorithm ks) (prev_result ks) = Inr (cmd, a')"
      by (subst (asm) run_loop.simps) (auto split: sum.splits)
    show ?thesis
    proof (cases "payload_bits cmd < 0")
      case True
      with False cmd "1.prems" show ?thesis
        by (subst (asm) run_loop.simps) auto
    next
      case nonneg: False
      with False cmd "1.prems"(1) obtain ks2 where
        sl: "run_slot A R config present_tags cmd (ks \<lparr> algorithm := a' \<rparr>) = Inr ks2"
        and rest: "run_loop A R config present_tags ks2 = Inr ks'"
        by (subst (asm) run_loop.simps) (auto split: sum.splits)
      from run_slot_total_slots [OF sl] False have "total_slots ks2 \<le> MAX_SLOTS_LIMIT + 1"
        by simp
      with "1.IH" [of "(cmd, a')" cmd a' ks2] False cmd nonneg sl rest show ?thesis
        by simp
    qed
  qed
qed

lemma LODS_methods:
  "alg_get_next_command LODS = get_next_command" "alg_is_finished LODS = is_finished"
  by (simp_all add: LODS_def)

lemma stuck_loop:
  fixes ks :: "(lods, 'r) kernel"
  assumes "algorithm ks = stuck" and "total_slots ks \<le> MAX_SLOTS_LIMIT + 1"
  shows "\<exists>ks'. run_loop LODS R ideal_config [tag1] ks = Inr ks'
               \<and> total_slots ks' = MAX_SLOTS_LIMIT + 1 \<and> algorithm ks' = stuck"
  using assms
proof (induction "nat (MAX_SLOTS_LIMIT + 1 - total_slots ks)" arbitrary: ks)
  case 0
  then have "total_slots ks = MAX_SLOTS_LIMIT + 1" by simp
  with 0 stuck_unfinished show ?case
    by (subst run_loop.simps) (simp add: LODS_methods)
next
  case (Suc n)
  then have below: "\<not> MAX_SLOTS_LIMIT < total_slots ks" by simp
  let ?ks2 = "ks \<lparr> algorithm := stuck \<rparr> \<lparr> total_slots := total_slots ks + 1, success_slots := success_slots ks + 1,
               prev_result := \<lparr> status = SUCCESS, tag_ids = [epc tag1],
                                 resolved_data = Some [epc tag1], channel_noise_mask = 0,
                                 extra_info = None \<rparr> \<rparr>"
  have unfold: "run_loop LODS R ideal_config [tag1] ks = run_loop LODS R ideal_config [tag1] ?ks2"
    using below Suc.prems(1) stuck_unfinished
    by (subst run_loop.simps) (simp add: LODS_methods stuck_step stuck_slot stuck_cmd_payload)
  have "n = nat (MAX_SLOTS_LIMIT + 1 - total_slots ?ks2)"
    using Suc.hyps(2) by simp
  from Suc.hyps(1) [OF this] Suc.prems below
  obtain ks' where "run_loop LODS R ideal_config [tag1] ?ks2 = Inr ks'"
    "total_slots ks' = MAX_SLOTS_LIMIT + 1" "algorithm ks' = stuck"
    by auto
  with unfold show ?case by simp
qed

text \<open>
  Claim C7, as the code has it. Once the slot count has passed \<open>MAX_SLOTS_LIMIT\<close> the
  loop is left (after a printed warning) and the function returns its statistics as
  after any other run; no exception reaches the caller. So the count a run returns is at
  most \<open>MAX_SLOTS_LIMIT + 1\<close>, and a run cut by the ceiling differs from a completed
  one in that count and in the protocol's \<open>is_finished()\<close> only.
\<close>

theorem circuit_breaker:
  "(MAX_SLOTS_LIMIT < total_slots ks \<longrightarrow> run_loop A R config present_tags ks = Inr ks)
   \<and> (run_high_fidelity_simulation A R config true_tags a r = Inr ks'
        \<longrightarrow> total_slots ks' \<le> MAX_SLOTS_LIMIT + 1)"
proof -
  have "run_loop A R config present_tags ks = Inr ks" if "MAX_SLOTS_LIMIT < total_slots ks"
    using that by (subst run_loop.simps) simp
  moreover
  have "total_slots ks' \<le> MAX_SLOTS_LIMIT + 1"
    if "run_high_fidelity_simulation A R config true_tags a r = Inr ks'"
    using that run_loop_bound [of A R config "filter is_present true_tags" "fresh_kernel a r" ks']
    by (simp add: run_high_fidelity_simulation_def fresh_kernel_def MAX_SLOTS_LIMIT_def)
  ultimately show ?thesis by blast
qed

theorem circuit_breaker_witness:
  "MAX_SLOTS_LIMIT < total_slots ((fresh_kernel stuck ()) \<lparr> total_slots := 200001 \<rparr>) \<and>
   run_loop LODS no_random ideal_config [tag1] ((fresh_kernel stuck ()) \<lparr> total_slots := 200001 \<rparr>)
     = Inr ((fresh_kernel stuck ()) \<lparr> total_slots := 200001 \<rparr>) \<and>
   (\<exists>ks'. run_high_fidelity_simulation LODS no_random ideal_config [tag1] stuck () = Inr ks'
           \<and> total_slots ks' \<le> MAX_SLOTS_LIMIT + 1)"
proof -
  have over: "MAX_SLOTS_LIMIT < total_slots ((fresh_kernel stuck ()) \<lparr> total_slots := 200001 \<rparr>)"
    by (simp add: MAX_SLOTS_LIMIT_def)
  have "filter is_present [tag1] = [tag1]" by (simp add: tag1_def)
  with stuck_loop [of "fresh_kernel stuck ()" no_random]
  obtain ks' where run: "run_high_fidelity_simulation LODS no_random ideal_config [tag1] stuck () = Inr ks'"
    by (auto simp: run_high_fidelity_simulation_def fresh_kernel_def MAX_SLOTS_LIMIT_def)
  from circuit_breaker [of "(fresh_kernel stuck ()) \<lparr> total_slots := 200001 \<rparr>"
                           LODS no_random ideal_config "[tag1]" "[tag1]" stuck "()" ks']
    over run
  show ?thesis by blast
qed

text \<open>
  The claim as stated fails: the protocol object \<open>stuck\<close> never finishes, the kernel
  stops it after 200001 slots, and what the caller gets is the ordinary result with
  that slot count, from an object that is still running.
\<close>

theorem breaker_returns_statistics_counterexample:
  "map_sum id total_slots
     (run_high_fidelity_simulation LODS no_random ideal_config [tag1] stuck ()) = Inr 200001
   \<and> map_sum id (is_finished \<circ> algorithm)
     (run_high_fidelity_simulation LODS no_random ideal_config [tag1] stuck ()) = Inr False"
proof -
  have "filter is_present [tag1] = [tag1]" by (simp add: tag1_def)
  moreover
  from stuck_loop [of "fresh_kernel stuck ()" no_random]
  obtain ks' where "run_loop LODS no_random ideal_config [tag1] (fresh_kernel stuck ()) = Inr ks'"
    "total_slots ks' = MAX_SLOTS_LIMIT + 1" "algorithm ks' = stuck"
    by (auto simp: fresh_kernel_def MAX_SLOTS_LIMIT_def)
  ultimately show ?thesis
    using stuck_unfinished
    by (simp add: run_high_fidelity_simulation_def fresh_kernel_def MAX_SLOTS_LIMIT_def)
qed

section \<open>Burst erasure and jitter\<close>

text \<open>Whatever the capability flag of the protocol says, a slot that reaches the
  structural impairments (the clock drift before them has not raised) raises
  \<open>NameError\<close>.\<close>

lemma impair_structural:
  assumes "\<not> ENABLE_NOISE config" and "st \<noteq> IDLE" and "0 < expected_reply_bits cmd"
    and "0 < BURST_ERASURE_LEN config \<or> 0 < JITTER_OFFSET config"
    and "0 \<le> fst (random_randint R 0 (max 0 (expected_reply_bits cmd - BURST_ERASURE_LEN config)) r)"
    and "drift_flips config (expected_reply_bits cmd) 0 = Inr m"
  shows "impair A R config cmd st resolved r = Inl NameError"
  using assms
  by (auto simp: impair_def erasure_def py_shl_def Let_def split: prod.splits sum.splits)

text \<open>
  Claim C8 does not hold of the code. With a burst erasure configured, the first
  non-idle slot of the flagship protocol (which does not declare support) ends the run
  with \<open>NameError\<close> instead of an idle slot; with a jitter offset configured and a
  protocol that does declare support, the run ends the same way instead of delivering
  the impairment metadata.
\<close>

theorem phy_gate_raises:
  "run_high_fidelity_simulation LODS no_random (ideal_config \<lparr> BURST_ERASURE_LEN := 8 \<rparr>)
     [tag1] (initialize flagship [tag1]) () = Inl NameError \<and>
   run_high_fidelity_simulation (LODS \<lparr> supports_phy_impairments := True \<rparr>) no_random
     (ideal_config \<lparr> JITTER_OFFSET := 1 \<rparr>)
     [tag1] (initialize flagship [tag1]) () = Inl NameError"
  by code_simp

section \<open>Capture effect\<close>

lemma collect_length: "collect rs = Inr xs \<Longrightarrow> length xs = length rs"
proof (induction rs arbitrary: xs)
  case Nil
  then show ?case by simp
next
  case (Cons r rs)
  then show ?case by (cases r) (auto split: sum.splits)
qed

lemma signal_strengths_sorted:
  assumes "signal_strengths rmap responders = Inr strengths"
  shows "length strengths = length responders"
    and "sorted (map (\<lambda>x. - snd x) strengths)"
proof -
  from assms obtain raw where raw: "collect (map (\<lambda>e. case rmap e of None \<Rightarrow> Inl KeyError | Some r \<Rightarrow> Inr (e, r)) responders) = Inr raw"
    and st: "strengths = sort_key (\<lambda>x. - snd x) raw"
    by (auto simp: signal_strengths_def split: sum.splits)
  from collect_length [OF raw] st show "length strengths = length responders" by simp
  from st show "sorted (map (\<lambda>x. - snd x) strengths)" by simp
qed

lemma descending:
  assumes "sorted (map (\<lambda>x. - snd x) (strengths :: (string \<times> real) list))"
    and "i \<le> j" and "j < length strengths"
  shows "snd (strengths ! j) \<le> snd (strengths ! i)"
proof -
  from assms have "map (\<lambda>x. - snd x) strengths ! i \<le> map (\<lambda>x. - snd x) strengths ! j"
    by (intro sorted_nth_mono) simp_all
  with assms show ?thesis by simp
qed

text \<open>
  Claim C9, as the code has it. In a slot with two or more responders and the capture
  effect enabled, \<open>strengths\<close> lists the responders by descending signal strength, so
  its first entry is the strongest responder and its second the second-strongest. The
  collision becomes a success for the strongest responder exactly when the margin
  between the two is at least the configured threshold (and the identifier of the
  strongest is not the empty string, which no constructed tag has); otherwise the slot
  stays a collision.
\<close>

theorem capture_rule:
  assumes cap: "ENABLE_CAPTURE_EFFECT config" and two: "2 \<le> length responders"
    and str: "signal_strengths rmap responders = Inr strengths"
  shows "(\<forall>i<length strengths. snd (strengths ! i) \<le> snd (strengths ! 0))
       \<and> (\<forall>i<length strengths. 1 \<le> i \<longrightarrow> snd (strengths ! i) \<le> snd (strengths ! 1))
       \<and> classify config rmap responders ks =
           (if CAPTURE_RATIO_DB config \<le> snd (strengths ! 0) - snd (strengths ! 1)
               \<and> fst (strengths ! 0) \<noteq> []
            then Inr (SUCCESS, Some [fst (strengths ! 0)],
                      ks \<lparr> collision_slots := collision_slots ks + 1 - 1,
                           success_slots := success_slots ks + 1 \<rparr>)
            else Inr (COLLISION, None, ks \<lparr> collision_slots := collision_slots ks + 1 \<rparr>))"
proof -
  note srt = signal_strengths_sorted [OF str]
  from srt(1) two have len: "2 \<le> length strengths" by simp
  have a: "\<forall>i<length strengths. snd (strengths ! i) \<le> snd (strengths ! 0)"
    using descending [OF srt(2), of 0] by simp
  have b: "\<forall>i<length strengths. 1 \<le> i \<longrightarrow> snd (strengths ! i) \<le> snd (strengths ! 1)"
    using descending [OF srt(2), of 1] by simp
  have c: "classify config rmap responders ks =
           (if CAPTURE_RATIO_DB config \<le> snd (strengths ! 0) - snd (strengths ! 1)
               \<and> fst (strengths ! 0) \<noteq> []
            then Inr (SUCCESS, Some [fst (strengths ! 0)],
                      ks \<lparr> collision_slots := collision_slots ks + 1 - 1,
                           success_slots := success_slots ks + 1 \<rparr>)
            else Inr (COLLISION, None, ks \<lparr> collision_slots := collision_slots ks + 1 \<rparr>))"
  proof -
    from two have "responders \<noteq> []" "length responders \<noteq> 1" by auto
    with cap len str show ?thesis
      by (simp add: classify_def capture_winner_def)
  qed
  from a b c show ?thesis by blast
qed

theorem capture_rule_witness:
  "ENABLE_CAPTURE_EFFECT (ideal_config \<lparr> ENABLE_CAPTURE_EFFECT := True, CAPTURE_RATIO_DB := 2 \<rparr>) \<and>
   2 \<le> length [epc strong_tag, epc weak_tag] \<and>
   signal_strengths (rssi_map [strong_tag, weak_tag]) [epc strong_tag, epc weak_tag]
     = Inr [(epc strong_tag, - 40), (epc weak_tag, - 43)] \<and>
   map_sum id fst
     (classify (ideal_config \<lparr> ENABLE_CAPTURE_EFFECT := True, CAPTURE_RATIO_DB := 2 \<rparr>)
        (rssi_map [strong_tag, weak_tag]) [epc strong_tag, epc weak_tag]
        (fresh_kernel () ())) = Inr SUCCESS"
proof -
  let ?config = "ideal_config \<lparr> ENABLE_CAPTURE_EFFECT := True, CAPTURE_RATIO_DB := 2 \<rparr>"
  have cap: "ENABLE_CAPTURE_EFFECT ?config" by simp
  have two: "2 \<le> length [epc strong_tag, epc weak_tag]" by simp
  have str: "signal_strengths (rssi_map [strong_tag, weak_tag]) [epc strong_tag, epc weak_tag]
               = Inr [(epc strong_tag, - 40), (epc weak_tag, - 43)]"
    by (simp add: signal_strengths_def rssi_map_def strong_tag_def weak_tag_def)
  have thr: "CAPTURE_RATIO_DB ?config = 2" by simp
  from capture_rule [OF cap two str, of "fresh_kernel () ()"]
  have "map_sum id fst
     (classify ?config (rssi_map [strong_tag, weak_tag]) [epc strong_tag, epc weak_tag]
        (fresh_kernel () ())) = Inr SUCCESS"
    by (simp add: thr strong_tag_def)
  with cap two str show ?thesis by blast
qed

text \<open>
  The claim as stated fails at a margin equal to the threshold: the two tags differ by
  exactly the 3 dB of the configuration, and the slot is a success for the stronger.
\<close>

theorem capture_at_threshold_counterexample:
  "rssi strong_tag - rssi weak_tag = CAPTURE_RATIO_DB (ideal_config \<lparr> ENABLE_CAPTURE_EFFECT := True \<rparr>) \<and>
   map_sum id fst
     (classify (ideal_config \<lparr> ENABLE_CAPTURE_EFFECT := True \<rparr>)
        (rssi_map [strong_tag, weak_tag]) [epc strong_tag, epc weak_tag]
        (fresh_kernel () ())) = Inr SUCCESS"
  by code_simp

section \<open>The slicing step\<close>

lemma startswith_iff: "startswith s p \<longleftrightarrow> (\<exists>t. s = p @ t)"
  by (induction s p rule: startswith.induct) auto

lemma startswith_refl [simp]: "startswith s s"
  by (simp add: startswith_iff)

lemma lcp_prefix_left: "startswith a (get_lcp a b)"
  by (induction a b rule: get_lcp.induct) auto

lemma lcp_prefix_right: "startswith b (get_lcp a b)"
  by (induction a b rule: get_lcp.induct) auto

lemma lcp_same [simp]: "get_lcp a a = a"
  by (induction a) auto

lemma startswith_same_length: "startswith b a \<Longrightarrow> length a = length b \<Longrightarrow> a = b"
  by (auto simp: startswith_iff)

lemma startswith_between:
  fixes a b c :: string
  assumes "a \<le> b" and "b \<le> c" and "startswith a p" and "startswith c p"
  shows "startswith b p"
  using assms
proof (induction p arbitrary: a b c)
  case Nil
  then show ?case by simp
next
  case (Cons x p)
  from Cons.prems(3) obtain a' where a: "a = x # a'" and pa: "startswith a' p"
    by (cases a) auto
  from Cons.prems(4) obtain c' where c: "c = x # c'" and pc: "startswith c' p"
    by (cases c) auto
  from Cons.prems(1) a obtain y b' where b: "b = y # b'"
    by (cases b) auto
  from Cons.prems(1,2) a b c have "x = y" and "a' \<le> b'" and "b' \<le> c'"
    by (auto simp: Cons_le_Cons)
  with Cons.IH [OF _ _ pa pc] b show ?case by simp
qed

lemma py_index_in_range:
  "0 \<le> i \<Longrightarrow> i < int (length xs) \<Longrightarrow> py_index xs i = Inr (xs ! nat i)"
  by (simp add: py_index_def)

lemma slice_loop_result:
  assumes "0 \<le> start_idx" and "start_idx < int (length tags)"
    and "start_idx + k0 < int (length tags)"
  shows "\<exists>k. slice_loop tags start_idx k0
               = Inr (k, get_lcp (e_bin (tags ! nat start_idx)) (e_bin (tags ! nat (start_idx + k - 1))))
             \<and> 1 \<le> k \<and> k \<le> max 1 k0
             \<and> (\<not> startswith (e_bin (tags ! nat (start_idx + k)))
                      (get_lcp (e_bin (tags ! nat start_idx)) (e_bin (tags ! nat (start_idx + k - 1))))
                  \<or> k = 1)"
  using assms
proof (induction tags start_idx k0 rule: slice_loop.induct)
  case (1 tags start_idx k)
  show ?case
  proof (cases "k \<le> 0")
    case True
    with "1.prems" have "slice_loop tags start_idx k = Inr (1, e_bin (tags ! nat start_idx))"
      by (subst slice_loop.simps) (simp add: py_index_in_range)
    then show ?thesis by (intro exI [of _ 1]) simp
  next
    case False
    let ?lcp = "get_lcp (e_bin (tags ! nat start_idx)) (e_bin (tags ! nat (start_idx + k - 1)))"
    from False "1.prems" have idx:
      "py_index tags start_idx = Inr (tags ! nat start_idx)"
      "py_index tags (start_idx + k - 1) = Inr (tags ! nat (start_idx + k - 1))"
      "py_index tags (start_idx + k) = Inr (tags ! nat (start_idx + k))"
      by (simp_all add: py_index_in_range)
    show ?thesis
    proof (cases "startswith (e_bin (tags ! nat (start_idx + k))) ?lcp")
      case out: False
      with False idx have "slice_loop tags start_idx k = Inr (k, ?lcp)"
        by (subst slice_loop.simps) simp
      with False out show ?thesis by (intro exI [of _ k]) simp
    next
      case True
      with False idx have step: "slice_loop tags start_idx k = slice_loop tags start_idx (k - 1)"
        by (subst slice_loop.simps) simp
      from "1.prems" have "start_idx + (k - 1) < int (length tags)" by simp
      with "1.IH" [OF False idx(1) idx(2) idx(3) True "1.prems"(1,2)] obtain k' where
        "slice_loop tags start_idx (k - 1)
               = Inr (k', get_lcp (e_bin (tags ! nat start_idx)) (e_bin (tags ! nat (start_idx + k' - 1))))"
        "1 \<le> k'" "k' \<le> max 1 (k - 1)"
        "\<not> startswith (e_bin (tags ! nat (start_idx + k')))
                      (get_lcp (e_bin (tags ! nat start_idx)) (e_bin (tags ! nat (start_idx + k' - 1))))
                  \<or> k' = 1"
        by blast
      with step False show ?thesis by (intro exI [of _ k']) auto
    qed
  qed
qed

lemma find_dynamic_slice_result:
  assumes len: "total_tags s = int (length (sorted_tags_bin s))"
    and start: "0 \<le> start_idx" "start_idx < total_tags s"
  shows "\<exists>k. find_dynamic_slice s start_idx ovr
               = Inr (k, get_lcp (bin_at s start_idx) (bin_at s (start_idx + k - 1)))
             \<and> 1 \<le> k \<and> start_idx + k \<le> total_tags s
             \<and> (start_idx + k = total_tags s
                  \<or> \<not> startswith (bin_at s (start_idx + k))
                         (get_lcp (bin_at s start_idx) (bin_at s (start_idx + k - 1)))
                  \<or> k = 1)"
proof -
  let ?tags = "sorted_tags_bin s"
  let ?remaining = "total_tags s - start_idx"
  define limit_k where "limit_k = (case ovr of
                         None \<Rightarrow> min (max_group_size s) ?remaining
                       | Some l \<Rightarrow> min (min (max_group_size s) ?remaining) l)"
  have le: "limit_k \<le> ?remaining"
    by (auto simp: limit_k_def split: option.splits)
  from start have ne: "?remaining \<noteq> 0" by simp
  show ?thesis
  proof (cases "start_idx + limit_k \<ge> total_tags s")
    case True
    with le have eq: "limit_k = ?remaining" by simp
    with start len have "0 \<le> start_idx + limit_k - 1" "start_idx + limit_k - 1 < int (length ?tags)"
      "start_idx < int (length ?tags)"
      by linarith+
    with start have idx: "py_index ?tags start_idx = Inr (?tags ! nat start_idx)"
      "py_index ?tags (start_idx + limit_k - 1) = Inr (?tags ! nat (start_idx + limit_k - 1))"
      by (simp_all only: py_index_in_range)
    from True ne idx have "find_dynamic_slice s start_idx ovr
        = Inr (limit_k, get_lcp (bin_at s start_idx) (bin_at s (start_idx + limit_k - 1)))"
      by (simp add: find_dynamic_slice_def Let_def limit_k_def [symmetric] bin_at_def)
    with eq start show ?thesis by (intro exI [of _ limit_k]) simp
  next
    case False
    with ne have fds: "find_dynamic_slice s start_idx ovr = slice_loop ?tags start_idx limit_k"
      by (simp add: find_dynamic_slice_def Let_def limit_k_def [symmetric])
    from False start len have "start_idx + limit_k < int (length ?tags)" "start_idx < int (length ?tags)"
      by simp_all
    from slice_loop_result [OF start(1) this(2) this(1)] obtain k where
      k: "slice_loop ?tags start_idx limit_k
               = Inr (k, get_lcp (e_bin (?tags ! nat start_idx)) (e_bin (?tags ! nat (start_idx + k - 1))))"
      "1 \<le> k" "k \<le> max 1 limit_k"
      "\<not> startswith (e_bin (?tags ! nat (start_idx + k)))
                      (get_lcp (e_bin (?tags ! nat start_idx)) (e_bin (?tags ! nat (start_idx + k - 1))))
                  \<or> k = 1"
      by blast
    from k(3) False start have "start_idx + k \<le> total_tags s" by auto
    with fds k show ?thesis by (intro exI [of _ k]) (auto simp: bin_at_def)
  qed
qed

lemma sorted_bins_mono:
  assumes "sorted (map e_bin (sorted_tags_bin s))" and "0 \<le> i" and "i \<le> j"
    and "j < int (length (sorted_tags_bin s))"
  shows "bin_at s i \<le> bin_at s j"
proof -
  from assms have "map e_bin (sorted_tags_bin s) ! nat i \<le> map e_bin (sorted_tags_bin s) ! nat j"
    by (intro sorted_nth_mono) auto
  with assms show ?thesis by (simp add: bin_at_def)
qed

text \<open>Every tag between two tags of the sorted population shares their common prefix.\<close>

lemma group_has_prefix:
  assumes srt: "sorted (map e_bin (sorted_tags_bin s))"
    and "0 \<le> start_idx" and "start_idx \<le> i" and "i \<le> last_idx"
    and "last_idx < int (length (sorted_tags_bin s))"
  shows "startswith (bin_at s i) (get_lcp (bin_at s start_idx) (bin_at s last_idx))"
proof (rule startswith_between)
  show "bin_at s start_idx \<le> bin_at s i"
    using assms by (intro sorted_bins_mono) auto
  show "bin_at s i \<le> bin_at s last_idx"
    using assms by (intro sorted_bins_mono) auto
  show "startswith (bin_at s start_idx) (get_lcp (bin_at s start_idx) (bin_at s last_idx))"
    by (rule lcp_prefix_left)
  show "startswith (bin_at s last_idx) (get_lcp (bin_at s start_idx) (bin_at s last_idx))"
    by (rule lcp_prefix_right)
qed

lemma slice_prefix:
  assumes len: "total_tags s = int (length (sorted_tags_bin s))"
    and srt: "sorted (map e_bin (sorted_tags_bin s))"
    and dist: "distinct (map e_bin (sorted_tags_bin s))"
    and width: "\<forall>t\<in>set (sorted_tags_bin s). length (e_bin t) = 96"
    and start: "0 \<le> start_idx" "start_idx < total_tags s"
  shows "\<exists>k m. find_dynamic_slice s start_idx ovr = Inr (k, m)
           \<and> 1 \<le> k \<and> start_idx + k \<le> total_tags s
           \<and> (\<forall>i. start_idx \<le> i \<and> i < start_idx + k \<longrightarrow> startswith (bin_at s i) m)
           \<and> (\<forall>i. start_idx + k \<le> i \<and> i < total_tags s \<longrightarrow> \<not> startswith (bin_at s i) m)"
proof -
  let ?m = "\<lambda>k. get_lcp (bin_at s start_idx) (bin_at s (start_idx + k - 1))"
  from find_dynamic_slice_result [OF len start, of ovr] obtain k where
    res: "find_dynamic_slice s start_idx ovr = Inr (k, ?m k)"
    and k: "1 \<le> k" "start_idx + k \<le> total_tags s"
    and out: "start_idx + k = total_tags s \<or> \<not> startswith (bin_at s (start_idx + k)) (?m k) \<or> k = 1"
    by blast
  have inside: "startswith (bin_at s i) (?m k)" if "start_idx \<le> i" "i < start_idx + k" for i
    using that k len start by (intro group_has_prefix [OF srt]) auto
  have outside: "\<not> startswith (bin_at s i) (?m k)" if i: "start_idx + k \<le> i" "i < total_tags s" for i
  proof
    assume match: "startswith (bin_at s i) (?m k)"
    from i k have "start_idx + k \<noteq> total_tags s" by simp
    with out consider "\<not> startswith (bin_at s (start_idx + k)) (?m k)" | "k = 1" by blast
    then show False
    proof cases
      case 1
      have "startswith (bin_at s (start_idx + k)) (?m k)"
      proof (rule startswith_between)
        show "bin_at s start_idx \<le> bin_at s (start_idx + k)"
          using start k i len by (intro sorted_bins_mono [OF srt]) auto
        show "bin_at s (start_idx + k) \<le> bin_at s i"
          using start k i len by (intro sorted_bins_mono [OF srt]) auto
        show "startswith (bin_at s start_idx) (?m k)" by (rule lcp_prefix_left)
        show "startswith (bin_at s i) (?m k)" by (rule match)
      qed
      with 1 show False by simp
    next
      case 2
      with match have sw: "startswith (bin_at s i) (bin_at s start_idx)" by simp
      from start i k len have ni: "nat i < length (sorted_tags_bin s)"
        and ns: "nat start_idx < length (sorted_tags_bin s)" and neq: "nat start_idx \<noteq> nat i"
        by auto
      with width have "length (bin_at s i) = 96" "length (bin_at s start_idx) = 96"
        by (auto simp: bin_at_def)
      with sw have "bin_at s start_idx = bin_at s i"
        by (intro startswith_same_length) simp_all
      then have "map e_bin (sorted_tags_bin s) ! nat start_idx = map e_bin (sorted_tags_bin s) ! nat i"
        using ni ns by (simp add: bin_at_def)
      moreover from ni ns have "nat i < length (map e_bin (sorted_tags_bin s))"
        "nat start_idx < length (map e_bin (sorted_tags_bin s))" by simp_all
      ultimately have "nat start_idx = nat i"
        using dist by (simp only: nth_eq_iff_index_eq)
      with neq show False by simp
    qed
  qed
  from res k inside outside show ?thesis by blast
qed

text \<open>The binary form of a non-negative identifier below \<open>2^96\<close> has 96 digits and
  determines the identifier.\<close>

lemma bits_value_snoc:
  "bits_value (s @ [c]) = 2 * bits_value s + (if c = CHR ''1'' then 1 else 0)"
  by (simp add: bits_value_def)

lemma bits_value_digit: "bits_value [c] = (if c = CHR ''1'' then 1 else 0)"
  by (simp add: bits_value_def)

lemma bits_value_zeros: "bits_value (replicate k (CHR ''0'') @ s) = bits_value s"
  by (induction k) (simp_all add: bits_value_def)

lemma bits_value_of_bits: "bits_value (bits_of n) = n"
proof (induction n rule: bits_of.induct)
  case (1 n)
  show ?case
  proof (cases "n < 2")
    case True
    then have "n = 0 \<or> n = 1" by auto
    then show ?thesis by (subst bits_of.simps) (auto simp: bits_value_digit)
  next
    case False
    with "1.IH" have "bits_value (bits_of (n div 2)) = n div 2" by simp
    moreover have "2 * (n div 2) + (if n mod 2 = 0 then 0 else 1) = n"
      by (cases "n mod 2 = 0") presburger+
    ultimately show ?thesis using False
      by (subst bits_of.simps) (auto simp: bits_value_snoc)
  qed
qed

lemma bits_of_length: "n < 2 ^ k \<Longrightarrow> 0 < k \<Longrightarrow> length (bits_of n) \<le> k"
proof (induction n arbitrary: k rule: bits_of.induct)
  case (1 n)
  show ?case
  proof (cases "n < 2")
    case True
    with "1.prems" show ?thesis by (subst bits_of.simps) simp
  next
    case False
    with "1.prems" obtain j where k: "k = Suc j" by (cases k) auto
    with "1.prems" have "n div 2 < 2 ^ j" by (simp add: less_mult_imp_div_less mult.commute)
    moreover from False k "1.prems" have "0 < j" by (cases j) auto
    ultimately have "length (bits_of (n div 2)) \<le> j" using "1.IH" False by simp
    with False k show ?thesis by (subst bits_of.simps) simp
  qed
qed

lemma bits_of_head: "bits_of n \<noteq> [] \<and> hd (bits_of n) \<noteq> CHR ''+'' \<and> hd (bits_of n) \<noteq> CHR ''-''"
proof (induction n rule: bits_of.induct)
  case (1 n)
  show ?case
  proof (cases "n < 2")
    case True
    then show ?thesis by (subst bits_of.simps, subst (2) bits_of.simps, subst (3) bits_of.simps) simp
  next
    case False
    with "1.IH" show ?thesis
      by (subst bits_of.simps, subst (2) bits_of.simps, subst (3) bits_of.simps) simp
  qed
qed

lemma tag_bin_nonneg:
  assumes "0 \<le> epc_int t"
  shows "tag_bin t = replicate (96 - length (bits_of (nat (epc_int t)))) (CHR ''0'')
                     @ bits_of (nat (epc_int t))"
proof -
  from bits_of_head [of "nat (epc_int t)"] obtain c cs where
    "bits_of (nat (epc_int t)) = c # cs" "c \<noteq> CHR ''+''" "c \<noteq> CHR ''-''"
    by (cases "bits_of (nat (epc_int t))") auto
  with assms show ?thesis
    by (simp add: tag_bin_def bin_tail_def zfill_def)
qed

lemma tag_bin_value: "0 \<le> epc_int t \<Longrightarrow> bits_value (tag_bin t) = nat (epc_int t)"
  using bits_value_of_bits [of "nat (epc_int t)"]
  by (simp add: tag_bin_nonneg bits_value_zeros)

lemma tag_bin_width:
  assumes "0 \<le> epc_int t" and "epc_int t < 2 ^ 96"
  shows "length (tag_bin t) = 96"
proof -
  from assms have "nat (epc_int t) < 2 ^ 96"
    by (simp add: nat_less_iff)
  then have "length (bits_of (nat (epc_int t))) \<le> 96"
    by (rule bits_of_length) simp
  with assms(1) show ?thesis by (simp add: tag_bin_nonneg)
qed

lemma tag_bin_inj:
  assumes "0 \<le> epc_int t" "0 \<le> epc_int u" "tag_bin t = tag_bin u"
  shows "epc_int t = epc_int u"
proof -
  from assms have "nat (epc_int t) = nat (epc_int u)"
    using tag_bin_value [of t] tag_bin_value [of u] by simp
  with assms show ?thesis by simp
qed

lemma distinct_map_sort_key:
  "distinct (map f (sort_key g xs)) \<longleftrightarrow> distinct (map f xs)"
proof -
  have "mset (map f (sort_key g xs)) = mset (map f xs)" by simp
  then show ?thesis by (rule mset_eq_imp_distinct_iff)
qed

lemma initialize_fields:
  "sorted_tags_bin (initialize s0 tags)
     = sort_key e_bin (map (\<lambda>t. \<lparr> e_hex = epc t, e_bin = tag_bin t, e_int = epc_int t \<rparr>) tags)"
  "total_tags (initialize s0 tags) = int (length tags)"
  "cursor (initialize s0 tags) = 0"
  "last_sent_context (initialize s0 tags) = []"
  "verified_present (initialize s0 tags) = {}"
  "verified_missing (initialize s0 tags) = {}"
  "is_running (initialize s0 tags)"
  by (simp_all add: initialize_def Let_def)

lemma initialize_sorted: "sorted (map e_bin (sorted_tags_bin (initialize s0 tags)))"
  by (simp add: initialize_fields)

lemma initialize_length:
  "total_tags (initialize s0 tags) = int (length (sorted_tags_bin (initialize s0 tags)))"
  by (simp add: initialize_fields)

lemma initialize_bins:
  "set (map e_bin (sorted_tags_bin (initialize s0 tags))) = tag_bin ` set tags"
  by (simp add: initialize_fields image_image)

lemma initialize_distinct_bins:
  assumes "distinct (map epc_int tags)" and "\<forall>t\<in>set tags. 0 \<le> epc_int t"
  shows "distinct (map e_bin (sorted_tags_bin (initialize s0 tags)))"
proof -
  from assms(1) have d: "distinct tags" and inj: "inj_on epc_int (set tags)"
    by (simp_all add: distinct_map)
  have "inj_on tag_bin (set tags)"
  proof (rule inj_onI)
    fix t u assume tu: "t \<in> set tags" "u \<in> set tags" "tag_bin t = tag_bin u"
    with assms(2) have "epc_int t = epc_int u" by (intro tag_bin_inj) auto
    with inj tu show "t = u" by (auto dest: inj_onD)
  qed
  with d have "distinct (map tag_bin tags)" by (simp add: distinct_map)
  then have "distinct (map e_bin (map (\<lambda>t. \<lparr> e_hex = epc t, e_bin = tag_bin t, e_int = epc_int t \<rparr>) tags))"
    by (simp add: comp_def)
  then show ?thesis
    by (simp only: initialize_fields distinct_map_sort_key)
qed

text \<open>
  Claim C3, as the code has it. For a population of pairwise different 96-bit
  identifiers, sorted by \<open>initialize\<close>, and every cursor position before the end, the
  slicing step returns a group of at least one tag inside the population and a prefix
  that every tag of the group starts with and no tag after the group starts with. Tags
  before the cursor are not excluded: the prefix is the common prefix of the first and
  the last tag of the group, whatever came before.
\<close>

theorem slice_prefix_excludes_later_tags:
  assumes dist: "distinct (map epc_int expected_tags)"
    and width: "\<forall>t\<in>set expected_tags. 0 \<le> epc_int t \<and> epc_int t < 2 ^ 96"
    and start: "0 \<le> start_idx" "start_idx < total_tags (initialize s0 expected_tags)"
  shows "\<exists>k m. find_dynamic_slice (initialize s0 expected_tags) start_idx ovr = Inr (k, m)
           \<and> 1 \<le> k \<and> start_idx + k \<le> total_tags (initialize s0 expected_tags)
           \<and> (\<forall>i. start_idx \<le> i \<and> i < start_idx + k
                  \<longrightarrow> startswith (bin_at (initialize s0 expected_tags) i) m)
           \<and> (\<forall>i. start_idx + k \<le> i \<and> i < total_tags (initialize s0 expected_tags)
                  \<longrightarrow> \<not> startswith (bin_at (initialize s0 expected_tags) i) m)"
proof (rule slice_prefix [OF initialize_length initialize_sorted _ _ start])
  from dist width show "distinct (map e_bin (sorted_tags_bin (initialize s0 expected_tags)))"
    by (intro initialize_distinct_bins) auto
  have "\<forall>b\<in>set (map e_bin (sorted_tags_bin (initialize s0 expected_tags))). length b = 96"
    unfolding initialize_bins using width by (auto simp: tag_bin_width)
  then show "\<forall>t\<in>set (sorted_tags_bin (initialize s0 expected_tags)). length (e_bin t) = 96"
    by simp
qed

lemma five_tags_distinct_96_bit: "distinct (map epc_int five_tags)"
  "\<forall>t\<in>set five_tags. 0 \<le> epc_int t \<and> epc_int t < 2 ^ 96"
  by (simp_all add: five_tags_def)

lemma five_tags_first_slice: "find_dynamic_slice (initialize (LODS_MTI_Algorithm 3 4 True 256) five_tags) 0 None
             = Inr (2, replicate 95 (CHR ''0''))"
  by code_simp

theorem slice_prefix_excludes_later_tags_witness:
  "distinct (map epc_int five_tags) \<and>
   find_dynamic_slice (initialize (LODS_MTI_Algorithm 3 4 True 256) five_tags) 0 None
     = Inr (2, replicate 95 (CHR ''0'')) \<and>
   startswith (bin_at (initialize (LODS_MTI_Algorithm 3 4 True 256) five_tags) 0)
     (replicate 95 (CHR ''0'')) \<and>
   startswith (bin_at (initialize (LODS_MTI_Algorithm 3 4 True 256) five_tags) 1)
     (replicate 95 (CHR ''0'')) \<and>
   \<not> startswith (bin_at (initialize (LODS_MTI_Algorithm 3 4 True 256) five_tags) 2)
       (replicate 95 (CHR ''0'')) \<and>
   \<not> startswith (bin_at (initialize (LODS_MTI_Algorithm 3 4 True 256) five_tags) 3)
       (replicate 95 (CHR ''0'')) \<and>
   \<not> startswith (bin_at (initialize (LODS_MTI_Algorithm 3 4 True 256) five_tags) 4)
       (replicate 95 (CHR ''0''))"
proof -
  let ?s = "initialize (LODS_MTI_Algorithm 3 4 True 256) five_tags"
  let ?m = "replicate 95 (CHR ''0'')"
  have total: "total_tags ?s = 5"
    by (simp add: initialize_fields five_tags_def)
  then have start: "(0::int) \<le> 0" "0 < total_tags ?s" by simp_all
  from slice_prefix_excludes_later_tags [OF five_tags_distinct_96_bit start, of None]
  have inside: "\<forall>i. 0 \<le> i \<and> i < 2 \<longrightarrow> startswith (bin_at ?s i) ?m"
    and outside: "\<forall>i. 2 \<le> i \<and> i < 5 \<longrightarrow> \<not> startswith (bin_at ?s i) ?m"
    unfolding five_tags_first_slice total by simp_all
  from inside have "startswith (bin_at ?s 0) ?m" "startswith (bin_at ?s 1) ?m"
    by simp_all
  moreover from outside have "\<not> startswith (bin_at ?s 2) ?m" "\<not> startswith (bin_at ?s 3) ?m"
    "\<not> startswith (bin_at ?s 4) ?m"
    by simp_all
  ultimately show ?thesis
    using five_tags_distinct_96_bit(1) five_tags_first_slice by blast
qed

text \<open>
  The claim as stated fails before the cursor. With \<open>max_group_size = 3\<close> the first
  group of the five tags is the tags 0 and 1, which leaves the cursor at 2; the slice
  there is the tags 2, 3 and 4 with a prefix of 93 zeros, and the tag 0, before the
  cursor, starts with it: the responder predicate accepts it.
\<close>

theorem slice_counterexample:
  "find_dynamic_slice (initialize (LODS_MTI_Algorithm 3 4 True 256) five_tags) 2 None
     = Inr (3, replicate 93 (CHR ''0'')) \<and>
   startswith (bin_at (initialize (LODS_MTI_Algorithm 3 4 True 256) five_tags) 0)
     (replicate 93 (CHR ''0'')) \<and>
   protocol_logic (replicate 93 (CHR ''0'')) (five_tags ! 0) \<and>
   map_sum id cursor (drive (initialize (LODS_MTI_Algorithm 3 4 True 256) five_tags) [initial_result])
     = Inr 2"
  by code_simp

section \<open>The partition of the expected tags\<close>

lemma collect_map_Inr: "collect (map (\<lambda>x. Inr (f x)) xs) = Inr (map f xs)"
  by (induction xs) simp_all

lemma group_ints_slice:
  assumes "0 \<le> c" and "0 \<le> k" and "c + k \<le> int (length tags)"
  shows "group_ints tags c k = Inr (map e_int (take (nat k) (drop (nat c) tags)))"
proof -
  have idx: "map (\<lambda>i. case py_index tags i of Inl e \<Rightarrow> Inl e | Inr t \<Rightarrow> Inr (e_int t)) [c..c + k - 1]
        = map (\<lambda>i. Inr (e_int (tags ! nat i))) [c..c + k - 1]"
    using assms by (intro map_cong refl) (simp add: py_index_in_range)
  have nth: "map (\<lambda>i. tags ! nat i) [c..c + int n - 1] = take n (drop (nat c) tags)"
    if "0 \<le> c" "c + int n \<le> int (length tags)" for n c
    using that
  proof (induction n arbitrary: c)
    case 0
    then show ?case by simp
  next
    case (Suc n)
    from Suc.prems have lt: "nat c < length tags" by linarith
    have "[c..c + int (Suc n) - 1] = c # [c + 1..c + 1 + int n - 1]"
      by (subst upto_rec1) (simp_all add: algebra_simps)
    moreover from Suc.prems have "map (\<lambda>i. tags ! nat i) [c + 1..c + 1 + int n - 1]
        = take n (drop (nat (c + 1)) tags)"
      by (intro Suc.IH) simp_all
    moreover from Suc.prems have "nat (c + 1) = Suc (nat c)" by simp
    ultimately show ?case using lt
      by (simp add: Cons_nth_drop_Suc [symmetric] del: upto.simps)
  qed
  from assms have "map (\<lambda>i. tags ! nat i) [c..c + k - 1] = take (nat k) (drop (nat c) tags)"
    using nth [of c "nat k"] by simp
  then have "map e_int (map (\<lambda>i. tags ! nat i) [c..c + k - 1])
               = map e_int (take (nat k) (drop (nat c) tags))"
    by (rule arg_cong)
  then have "map (\<lambda>i. e_int (tags ! nat i)) [c..c + k - 1]
               = map e_int (take (nat k) (drop (nat c) tags))"
    by (simp only: map_map comp_def)
  then show ?thesis
    unfolding group_ints_def idx by (simp only: collect_map_Inr)
qed

lemma py_slice_take_drop:
  "0 \<le> c \<Longrightarrow> 0 \<le> k \<Longrightarrow> c + k \<le> int (length xs)
   \<Longrightarrow> py_slice xs c (c + k) = take (nat k) (drop (nat c) xs)"
proof -
  assume a: "0 \<le> c" "0 \<le> k" "c + k \<le> int (length xs)"
  then have "nat (c + k) - nat c = nat k" by linarith
  with a show ?thesis
    by (simp add: py_slice_def py_bound_def min_def)
qed

lemma seed_collides_distinct:
  "seed_collides seed n vals slots = Inr False \<Longrightarrow>
     distinct (map (\<lambda>v. (v XOR seed) mod n) vals)
     \<and> set (map (\<lambda>v. (v XOR seed) mod n) vals) \<inter> slots = {}
     \<and> (vals \<noteq> [] \<longrightarrow> n \<noteq> 0)"
proof (induction vals arbitrary: slots)
  case Nil
  then show ?case by simp
next
  case (Cons v vals)
  from Cons.prems have n: "n \<noteq> 0" and v: "(v XOR seed) mod n \<notin> slots"
    and rest: "seed_collides seed n vals (insert ((v XOR seed) mod n) slots) = Inr False"
    by (auto split: if_splits)
  from Cons.IH [OF rest] n v show ?case by auto
qed

lemma try_seeds_found:
  "try_seeds seeds vals n = Inr (Some seed) \<Longrightarrow> seed_collides seed n vals {} = Inr False"
  by (induction seeds) (auto split: sum.splits if_splits)

lemma find_perfect_seed_distinct:
  "find_perfect_seed vals n = Inr (Some seed) \<Longrightarrow>
     distinct (map (\<lambda>v. (v XOR seed) mod n) vals) \<and> (vals \<noteq> [] \<longrightarrow> n \<noteq> 0)"
  unfolding find_perfect_seed_def
  by (drule try_seeds_found, drule seed_collides_distinct) simp

lemma build_context_result:
  "build_context items seed n rho = Inr ctx \<Longrightarrow> ctx = group_context seed n rho items"
  by (induction items arbitrary: ctx) (auto simp: group_context_def split: if_splits sum.splits)

lemma find_dynamic_slice_unique:
  assumes len: "total_tags s = int (length (sorted_tags_bin s))"
    and start: "0 \<le> start_idx" "start_idx < total_tags s"
    and res: "find_dynamic_slice s start_idx ovr = Inr (k, m)"
  shows "1 \<le> k \<and> start_idx + k \<le> total_tags s
         \<and> m = get_lcp (bin_at s start_idx) (bin_at s (start_idx + k - 1))"
  using find_dynamic_slice_result [OF len start, of ovr] res by auto

lemma schedule_loop_result:
  assumes len: "total_tags s = int (length (sorted_tags_bin s))"
    and c: "0 \<le> cursor s" "cursor s < total_tags s"
    and res: "schedule_loop s rho M L = Inr ch"
  shows "final_k ch = 0 \<or>
     (1 \<le> final_k ch \<and> cursor s + final_k ch \<le> total_tags s
      \<and> final_mask ch = get_lcp (bin_at s (cursor s)) (bin_at s (cursor s + final_k ch - 1))
      \<and> 1 \<le> final_num_slots ch
      \<and> distinct (map (\<lambda>v. (v XOR final_seed ch) mod final_num_slots ch)
                    (map e_int (take (nat (final_k ch)) (drop (nat (cursor s)) (sorted_tags_bin s))))))"
  using assms
proof (induction s rho M L rule: schedule_loop.induct)
  case (1 s rho M L)
  note len = "1.prems"(1) and c = "1.prems"(2,3)
  show ?case
  proof (cases "L > 0")
    case False
    with "1.prems"(4) show ?thesis
      by (subst (asm) schedule_loop.simps) auto
  next
    case True
    with "1.prems"(4) obtain k m where fds: "find_dynamic_slice s (cursor s) (Some L) = Inr (k, m)"
      by (subst (asm) schedule_loop.simps) (auto split: sum.splits)
    from find_dynamic_slice_unique [OF len c fds]
    have k: "1 \<le> k" "cursor s + k \<le> total_tags s"
      and m: "m = get_lcp (bin_at s (cursor s)) (bin_at s (cursor s + k - 1))"
      by simp_all
    from True fds "1.prems"(4) have rho: "rho \<noteq> 0"
      by (subst (asm) schedule_loop.simps) (auto split: if_splits)
    let ?ints = "map e_int (take (nat k) (drop (nat (cursor s)) (sorted_tags_bin s)))"
    let ?n = "max 1 (max 4 (min (k * rho) M) div rho)"
    from k c len have gi: "group_ints (sorted_tags_bin s) (cursor s) k = Inr ?ints"
      by (intro group_ints_slice) simp_all
    show ?thesis
    proof (cases "find_perfect_seed ?ints ?n")
      case (Inl e)
      with True fds rho gi "1.prems"(4) show ?thesis
        by (subst (asm) schedule_loop.simps) simp
    next
      case (Inr found)
      show ?thesis
      proof (cases found)
        case None
        with Inr True fds rho gi "1.prems"(4)
        have rec: "schedule_loop s rho M (k - 1) = Inr ch"
          by (subst (asm) schedule_loop.simps) simp
        from "1.IH" [OF True fds refl rho gi _ _ len c rec] Inr None show ?thesis by simp
      next
        case (Some seed)
        with Inr True fds rho gi "1.prems"(4)
        have ch: "ch = \<lparr> final_k = k, final_mask = m, final_seed = seed,
                          final_reply_bits = max 4 (min (k * rho) M),
                          final_num_slots = ?n \<rparr>"
          by (subst (asm) schedule_loop.simps) simp
        from find_perfect_seed_distinct Inr Some
        have "distinct (map (\<lambda>v. (v XOR seed) mod ?n) ?ints)" by blast
        with ch k m show ?thesis by simp
      qed
    qed
  qed
qed

lemma schedule_unfold:
  assumes "schedule s f = Inr (cmd, s')"
  obtains ch ctx where
    "current_rho s \<noteq> 0"
    "schedule_loop s (current_rho s)
       (if current_rho s \<ge> 4 \<and> f then min 128 (max_payload_bit s) else max_payload_bit s)
       (min (min (max_group_size s)
                 ((if current_rho s \<ge> 4 \<and> f then min 128 (max_payload_bit s)
                   else max_payload_bit s) div current_rho s))
            (total_tags s - cursor s)) = Inr ch"
    "build_context (py_slice (sorted_tags_bin s) (cursor s) (cursor s + final_k ch))
            (final_seed ch) (final_num_slots ch) (current_rho s) = Inr ctx"
    "cmd = \<lparr> payload_bits = int (length (final_mask ch)) + 4 + 4
                    + (if int (length (final_mask ch)) + 4 + 4 < 32 then 5 else 16),
                 expected_reply_bits = final_reply_bits ch,
                 response_protocol = protocol_logic (final_mask ch),
                 concatenated_tags_count = 1 \<rparr>"
    "s' = s \<lparr> last_sent_context := ctx, cursor := cursor s + final_k ch \<rparr>"
proof -
  from assms have rho: "current_rho s \<noteq> 0"
    unfolding schedule_def Let_def by (simp split: if_splits)
  let ?M = "if current_rho s \<ge> 4 \<and> f then min 128 (max_payload_bit s) else max_payload_bit s"
  let ?loop = "schedule_loop s (current_rho s) ?M
       (min (min (max_group_size s) (?M div current_rho s)) (total_tags s - cursor s))"
  from assms rho obtain ch where ch: "?loop = Inr ch"
    unfolding schedule_def Let_def by (cases ?loop) simp_all
  let ?bc = "build_context (py_slice (sorted_tags_bin s) (cursor s) (cursor s + final_k ch))
            (final_seed ch) (final_num_slots ch) (current_rho s)"
  from assms rho ch obtain ctx where ctx: "?bc = Inr ctx"
    unfolding schedule_def Let_def by (cases ?bc) simp_all
  from assms rho ch ctx have
    "cmd = \<lparr> payload_bits = int (length (final_mask ch)) + 4 + 4
                    + (if int (length (final_mask ch)) + 4 + 4 < 32 then 5 else 16),
                 expected_reply_bits = final_reply_bits ch,
                 response_protocol = protocol_logic (final_mask ch),
                 concatenated_tags_count = 1 \<rparr>"
    "s' = s \<lparr> last_sent_context := ctx, cursor := cursor s + final_k ch \<rparr>"
    unfolding schedule_def Let_def by simp_all
  with rho ch ctx that show thesis by blast
qed

lemma schedule_result:
  assumes len: "total_tags s = int (length (sorted_tags_bin s))"
    and c: "0 \<le> cursor s" "cursor s < total_tags s"
    and res: "schedule s f = Inr (cmd, s')"
  shows "\<exists>k m seed n.
           0 \<le> k \<and> cursor s + k \<le> total_tags s
         \<and> cursor s' = cursor s + k
         \<and> last_sent_context s' = group_context seed n (current_rho s)
                                     (take (nat k) (drop (nat (cursor s)) (sorted_tags_bin s)))
         \<and> response_protocol cmd = protocol_logic m \<and> 0 \<le> payload_bits cmd
         \<and> current_rho s \<noteq> 0
         \<and> (1 \<le> k \<longrightarrow>
               m = get_lcp (bin_at s (cursor s)) (bin_at s (cursor s + k - 1)) \<and> 1 \<le> n
               \<and> distinct (map (\<lambda>v. (v XOR seed) mod n)
                     (map e_int (take (nat k) (drop (nat (cursor s)) (sorted_tags_bin s))))))"
proof -
  let ?rho = "current_rho s"
  from res obtain ch ctx where rho: "?rho \<noteq> 0"
    and ch: "schedule_loop s ?rho
       (if ?rho \<ge> 4 \<and> f then min 128 (max_payload_bit s) else max_payload_bit s)
       (min (min (max_group_size s)
                 ((if ?rho \<ge> 4 \<and> f then min 128 (max_payload_bit s)
                   else max_payload_bit s) div ?rho))
            (total_tags s - cursor s)) = Inr ch"
    and ctx: "build_context (py_slice (sorted_tags_bin s) (cursor s) (cursor s + final_k ch))
            (final_seed ch) (final_num_slots ch) ?rho = Inr ctx"
    and cmd_eq: "cmd = \<lparr> payload_bits = int (length (final_mask ch)) + 4 + 4
                    + (if int (length (final_mask ch)) + 4 + 4 < 32 then 5 else 16),
                 expected_reply_bits = final_reply_bits ch,
                 response_protocol = protocol_logic (final_mask ch),
                 concatenated_tags_count = 1 \<rparr>"
    and s'_eq: "s' = s \<lparr> last_sent_context := ctx, cursor := cursor s + final_k ch \<rparr>"
    by (rule schedule_unfold)
  from cmd_eq have cmd: "response_protocol cmd = protocol_logic (final_mask ch)"
      "0 \<le> payload_bits cmd"
    by simp_all
  from s'_eq have s': "cursor s' = cursor s + final_k ch" "last_sent_context s' = ctx"
    by simp_all
  from schedule_loop_result [OF len c ch]
  have k: "0 \<le> final_k ch" "cursor s + final_k ch \<le> total_tags s"
    and grp: "1 \<le> final_k ch \<longrightarrow>
        final_mask ch = get_lcp (bin_at s (cursor s)) (bin_at s (cursor s + final_k ch - 1))
        \<and> 1 \<le> final_num_slots ch
        \<and> distinct (map (\<lambda>v. (v XOR final_seed ch) mod final_num_slots ch)
                    (map e_int (take (nat (final_k ch)) (drop (nat (cursor s)) (sorted_tags_bin s)))))"
    using c by auto
  from k c len have "py_slice (sorted_tags_bin s) (cursor s) (cursor s + final_k ch)
                       = take (nat (final_k ch)) (drop (nat (cursor s)) (sorted_tags_bin s))"
    by (intro py_slice_take_drop) simp_all
  with build_context_result [OF ctx]
  have "ctx = group_context (final_seed ch) (final_num_slots ch) ?rho
                (take (nat (final_k ch)) (drop (nat (cursor s)) (sorted_tags_bin s)))"
    by simp
  with k grp cmd s' rho show ?thesis
    by (intro exI [of _ "final_k ch"] exI [of _ "final_mask ch"]
              exI [of _ "final_seed ch"] exI [of _ "final_num_slots ch"]) simp
qed

lemma schedule_keeps:
  assumes "schedule s f = Inr (cmd, s')"
  shows "sorted_tags_bin s' = sorted_tags_bin s" "total_tags s' = total_tags s"
    "is_running s' = is_running s" "current_rho s' = current_rho s"
    "verified_present s' = verified_present s" "verified_missing s' = verified_missing s"
    "max_group_size s' = max_group_size s" "max_payload_bit s' = max_payload_bit s"
    "is_adaptive s' = is_adaptive s" "target_rho s' = target_rho s"
proof -
  from assms obtain ch :: choice and ctx where
    "s' = s \<lparr> last_sent_context := ctx, cursor := cursor s + final_k ch \<rparr>"
    by (rule schedule_unfold)
  then show "sorted_tags_bin s' = sorted_tags_bin s" "total_tags s' = total_tags s"
    "is_running s' = is_running s" "current_rho s' = current_rho s"
    "verified_present s' = verified_present s" "verified_missing s' = verified_missing s"
    "max_group_size s' = max_group_size s" "max_payload_bit s' = max_payload_bit s"
    "is_adaptive s' = is_adaptive s" "target_rho s' = target_rho s"
    by simp_all
qed

lemma verify_and_adapt_unfold:
  assumes "verify_and_adapt s prev = Inr (s1, f)" and "last_sent_context s \<noteq> []"
  obtains received v where
    "received_bitmap (last_sent_context s) prev = Inr received"
    "judge received (vote_threshold (last_sent_context s)) (last_sent_context s)
            \<lparr> v_present = verified_present s, v_missing = verified_missing s,
              total_checks = 0, error_cnt = 0, error_flag = False \<rparr> = Inr v"
    "s1 = s \<lparr> verified_present := v_present v, verified_missing := v_missing v,
                current_rho := adapt s v, last_sent_context := [] \<rparr>"
    "f = error_flag v"
proof -
  let ?rb = "received_bitmap (last_sent_context s) prev"
  from assms obtain received where rec: "?rb = Inr received"
    unfolding verify_and_adapt_def by (cases ?rb) simp_all
  let ?j = "judge received (vote_threshold (last_sent_context s)) (last_sent_context s)
            \<lparr> v_present = verified_present s, v_missing = verified_missing s,
              total_checks = 0, error_cnt = 0, error_flag = False \<rparr>"
  from assms rec obtain v where v: "?j = Inr v"
    unfolding verify_and_adapt_def by (cases ?j) simp_all
  from assms rec v have
    "s1 = s \<lparr> verified_present := v_present v, verified_missing := v_missing v,
                current_rho := adapt s v, last_sent_context := [] \<rparr>"
    "f = error_flag v"
    unfolding verify_and_adapt_def by simp_all
  with rec v that show thesis by blast
qed

lemma verify_and_adapt_keeps:
  assumes "verify_and_adapt s prev = Inr (s1, f)"
  shows "sorted_tags_bin s1 = sorted_tags_bin s" "total_tags s1 = total_tags s"
    "is_running s1 = is_running s" "cursor s1 = cursor s" "last_sent_context s1 = []"
    "max_group_size s1 = max_group_size s" "max_payload_bit s1 = max_payload_bit s"
    "is_adaptive s1 = is_adaptive s" "target_rho s1 = target_rho s"
proof -
  have "sorted_tags_bin s1 = sorted_tags_bin s \<and> total_tags s1 = total_tags s \<and>
    is_running s1 = is_running s \<and> cursor s1 = cursor s \<and> last_sent_context s1 = [] \<and>
    max_group_size s1 = max_group_size s \<and> max_payload_bit s1 = max_payload_bit s \<and>
    is_adaptive s1 = is_adaptive s \<and> target_rho s1 = target_rho s"
  proof (cases "last_sent_context s = []")
    case True
    with assms show ?thesis by (simp add: verify_and_adapt_def)
  next
    case False
    from verify_and_adapt_unfold [OF assms False] obtain v where
      "s1 = s \<lparr> verified_present := v_present v, verified_missing := v_missing v,
                current_rho := adapt s v, last_sent_context := [] \<rparr>"
      by blast
    then show ?thesis by simp
  qed
  then show "sorted_tags_bin s1 = sorted_tags_bin s" "total_tags s1 = total_tags s"
    "is_running s1 = is_running s" "cursor s1 = cursor s" "last_sent_context s1 = []"
    "max_group_size s1 = max_group_size s" "max_payload_bit s1 = max_payload_bit s"
    "is_adaptive s1 = is_adaptive s" "target_rho s1 = target_rho s"
    by simp_all
qed

lemma verify_and_adapt_sets:
  assumes "verify_and_adapt s prev = Inr (s1, f)"
  shows "last_sent_context s = [] \<and> verified_present s1 = verified_present s
           \<and> verified_missing s1 = verified_missing s \<and> current_rho s1 = current_rho s
         \<or> (\<exists>received. received_bitmap (last_sent_context s) prev = Inr received
               \<and> (\<forall>i\<in>set (last_sent_context s). \<exists>c. match_count received i = Inr c)
               \<and> verified_present s1 = verified_present s \<union>
                    c_epc ` {i \<in> set (last_sent_context s).
                               confirmed received (vote_threshold (last_sent_context s)) i}
               \<and> verified_missing s1 = verified_missing s \<union>
                    c_epc ` {i \<in> set (last_sent_context s).
                               \<not> confirmed received (vote_threshold (last_sent_context s)) i})"
proof (cases "last_sent_context s = []")
  case True
  with assms show ?thesis by (simp add: verify_and_adapt_def)
next
  case False
  from verify_and_adapt_unfold [OF assms False] obtain received v where
    rec: "received_bitmap (last_sent_context s) prev = Inr received" and
    jud: "judge received (vote_threshold (last_sent_context s)) (last_sent_context s)
            \<lparr> v_present = verified_present s, v_missing = verified_missing s,
              total_checks = 0, error_cnt = 0, error_flag = False \<rparr> = Inr v" and
    s1_eq: "s1 = s \<lparr> verified_present := v_present v, verified_missing := v_missing v,
                current_rho := adapt s v, last_sent_context := [] \<rparr>"
    by blast
  from s1_eq have s1: "verified_present s1 = v_present v" "verified_missing s1 = v_missing v"
    by simp_all
  have all: "\<forall>i\<in>set ctx. \<exists>c. match_count received i = Inr c"
    if "judge received thr ctx v0 = Inr v'" for ctx thr v0 v'
    using that by (induction ctx arbitrary: v0) (auto split: sum.splits)
  from judge_sets [OF jud] s1 rec all [OF jud] show ?thesis by auto
qed

lemma group_context_epcs: "map c_epc (group_context seed n rho items) = map e_hex items"
  by (simp add: group_context_def comp_def)

lemma partition_inv_initialize:
  assumes "distinct (map epc tags)"
  shows "partition_inv (initialize s0 tags)"
proof -
  from assms have "distinct (map e_hex (map (\<lambda>t. \<lparr> e_hex = epc t, e_bin = tag_bin t, e_int = epc_int t \<rparr>) tags))"
    by (simp add: comp_def)
  then have "distinct (map e_hex (sorted_tags_bin (initialize s0 tags)))"
    by (simp only: initialize_fields distinct_map_sort_key)
  then show ?thesis
    by (simp add: partition_inv_def initialize_fields)
qed

lemma partition_inv_verify:
  assumes inv: "partition_inv s" and va: "verify_and_adapt s prev = Inr (s1, f)"
  shows "partition_inv s1"
proof -
  note keep = verify_and_adapt_keeps [OF va]
  let ?ctx = "last_sent_context s"
  from inv obtain past where
    len: "total_tags s = int (length (sorted_tags_bin s))"
    and cur: "0 \<le> cursor s" "cursor s \<le> total_tags s"
    and dist: "distinct (map e_hex (sorted_tags_bin s))"
    and dn: "map e_hex (take (nat (cursor s)) (sorted_tags_bin s)) = past @ map c_epc ?ctx"
      "verified_present s \<union> verified_missing s = set past"
    and disj: "verified_present s \<inter> verified_missing s = {}"
    and fin: "\<not> is_running s \<longrightarrow> total_tags s \<le> cursor s \<and> ?ctx = []"
    unfolding partition_inv_def by blast
  from dist have "distinct (take (nat (cursor s)) (map e_hex (sorted_tags_bin s)))"
    by (rule distinct_take)
  with dn(1) have d2: "distinct (past @ map c_epc ?ctx)"
    by (simp add: take_map)
  then have dctx: "distinct (map c_epc ?ctx)" and sep: "set past \<inter> set (map c_epc ?ctx) = {}"
    by auto
  have sets: "verified_present s1 \<union> verified_missing s1 = set (past @ map c_epc ?ctx)
              \<and> verified_present s1 \<inter> verified_missing s1 = {}"
  proof -
    from verify_and_adapt_sets [OF va]
    consider "?ctx = []" "verified_present s1 = verified_present s"
        "verified_missing s1 = verified_missing s"
      | A B where "verified_present s1 = verified_present s \<union> c_epc ` A"
        "verified_missing s1 = verified_missing s \<union> c_epc ` B"
        "A \<union> B = set ?ctx" "A \<inter> B = {}"
      by (elim disjE conjE exE) blast+
    then show ?thesis
    proof cases
      case 1
      with dn(2) disj show ?thesis by simp
    next
      case 2
      from dctx have inj: "inj_on c_epc (set ?ctx)" by (simp add: distinct_map)
      from 2(3) have "A \<subseteq> set ?ctx" "B \<subseteq> set ?ctx" by auto
      with inj 2(4) have ab: "c_epc ` A \<inter> c_epc ` B = {}"
        by (simp add: inj_on_image_Int [symmetric])
      from 2(3) have img: "c_epc ` A \<union> c_epc ` B = set (map c_epc ?ctx)"
        by (simp add: image_Un [symmetric])
      have "verified_present s1 \<union> verified_missing s1
              = (verified_present s \<union> verified_missing s) \<union> (c_epc ` A \<union> c_epc ` B)"
        unfolding 2(1,2) by blast
      then have u: "verified_present s1 \<union> verified_missing s1 = set (past @ map c_epc ?ctx)"
        by (simp add: dn(2) img)
      from sep img dn(2) have "(verified_present s \<union> verified_missing s) \<inter> (c_epc ` A \<union> c_epc ` B) = {}"
        by simp
      with ab disj have "verified_present s1 \<inter> verified_missing s1 = {}"
        unfolding 2(1,2) by blast
      with u show ?thesis by simp
    qed
  qed
  have "map e_hex (take (nat (cursor s1)) (sorted_tags_bin s1))
          = (past @ map c_epc ?ctx) @ map c_epc (last_sent_context s1)"
    using dn(1) by (simp add: keep)
  with sets have "\<exists>d. map e_hex (take (nat (cursor s1)) (sorted_tags_bin s1))
                    = d @ map c_epc (last_sent_context s1)
                 \<and> verified_present s1 \<union> verified_missing s1 = set d"
    by blast
  with len cur dist sets fin show ?thesis
    unfolding partition_inv_def by (simp add: keep)
qed

lemma partition_inv_step:
  assumes inv: "partition_inv s" and step: "get_next_command s prev = Inr (cmd, s')"
  shows "partition_inv s'"
proof -
  from step obtain s1 f where va: "verify_and_adapt s prev = Inr (s1, f)"
    by (cases "verify_and_adapt s prev") (auto simp: get_next_command_def)
  note inv1 = partition_inv_verify [OF inv va]
  have ctx1: "last_sent_context s1 = []" by (rule verify_and_adapt_keeps [OF va])
  from inv1 ctx1 obtain past where
    len: "total_tags s1 = int (length (sorted_tags_bin s1))"
    and cur: "0 \<le> cursor s1" "cursor s1 \<le> total_tags s1"
    and dist: "distinct (map e_hex (sorted_tags_bin s1))"
    and dn: "map e_hex (take (nat (cursor s1)) (sorted_tags_bin s1)) = past"
      "verified_present s1 \<union> verified_missing s1 = set past"
    and disj: "verified_present s1 \<inter> verified_missing s1 = {}"
    unfolding partition_inv_def by auto
  show ?thesis
  proof (cases "cursor s1 \<ge> total_tags s1")
    case True
    with step va have "s' = s1 \<lparr> is_running := False \<rparr>"
      by (simp add: get_next_command_def)
    with inv1 ctx1 True show ?thesis
      unfolding partition_inv_def by simp
  next
    case False
    with step va have sch: "schedule s1 f = Inr (cmd, s')"
      by (simp add: get_next_command_def)
    note keep = schedule_keeps [OF sch]
    from False cur have lt: "cursor s1 < total_tags s1" by simp
    from schedule_result [OF len cur(1) lt sch] obtain k seed n where
      k: "0 \<le> k" "cursor s1 + k \<le> total_tags s1"
      and cur': "cursor s' = cursor s1 + k"
      and ctx': "last_sent_context s' = group_context seed n (current_rho s1)
                   (take (nat k) (drop (nat (cursor s1)) (sorted_tags_bin s1)))"
      by blast
    from k cur(1) have "nat (cursor s1 + k) = nat (cursor s1) + nat k" by simp
    then have "map e_hex (take (nat (cursor s')) (sorted_tags_bin s'))
                 = past @ map c_epc (last_sent_context s')"
      by (simp add: cur' ctx' keep group_context_epcs take_add dn(1))
    with dn(2) have "\<exists>d. map e_hex (take (nat (cursor s')) (sorted_tags_bin s'))
                    = d @ map c_epc (last_sent_context s')
                 \<and> verified_present s' \<union> verified_missing s' = set d"
      by (auto simp: keep)
    moreover from inv1 lt have "is_running s'"
      unfolding partition_inv_def by (auto simp: keep)
    ultimately show ?thesis
      using len cur k dist disj unfolding partition_inv_def by (simp add: keep cur')
  qed
qed

lemma partition_inv_drive:
  "partition_inv s \<Longrightarrow> drive s results = Inr s' \<Longrightarrow> partition_inv s'"
proof (induction results arbitrary: s)
  case Nil
  then show ?case by simp
next
  case (Cons r rs)
  from Cons.prems(2) obtain cmd s1 where "get_next_command s r = Inr (cmd, s1)"
    and "drive s1 rs = Inr s'"
    by (cases "get_next_command s r") auto
  with Cons.IH partition_inv_step [OF Cons.prems(1)] show ?case by blast
qed

lemma partition_inv_complete:
  assumes "partition_inv s"
  shows "verified_present s \<inter> verified_missing s = {}
         \<and> (is_finished s \<longrightarrow>
               verified_present s \<union> verified_missing s = e_hex ` set (sorted_tags_bin s))"
proof -
  from assms obtain past where
    len: "total_tags s = int (length (sorted_tags_bin s))"
    and cur: "0 \<le> cursor s" "cursor s \<le> total_tags s"
    and dn: "map e_hex (take (nat (cursor s)) (sorted_tags_bin s)) = past @ map c_epc (last_sent_context s)"
      "verified_present s \<union> verified_missing s = set past"
    and disj: "verified_present s \<inter> verified_missing s = {}"
    and fin: "\<not> is_running s \<longrightarrow> total_tags s \<le> cursor s \<and> last_sent_context s = []"
    unfolding partition_inv_def by blast
  have "verified_present s \<union> verified_missing s = e_hex ` set (sorted_tags_bin s)" if "is_finished s"
  proof -
    from that fin cur len have "nat (cursor s) = length (sorted_tags_bin s)" "last_sent_context s = []"
      by (auto simp: is_finished_def)
    with dn have "past = map e_hex (sorted_tags_bin s)" by simp
    with dn(2) show ?thesis by simp
  qed
  with disj show ?thesis by blast
qed

lemma two_tags_drive:
  "drive (initialize flagship [tag1, tag2]) [initial_result, tag1_replies] = Inr two_tags_done"
  by code_simp

lemma two_tags_kernel:
  "run_high_fidelity_simulation LODS no_random ideal_config [tag1, tag2]
     (initialize flagship [tag1, tag2]) () = Inr two_tags_run"
  by code_simp

lemma classify_algorithm:
  "classify config rmap responders ks = Inr (st, resolved, ks1) \<Longrightarrow> algorithm ks1 = algorithm ks"
  by (auto simp: classify_def split: if_splits sum.splits option.splits)

lemma run_slot_algorithm:
  fixes ks ks' :: "('s, 'r) kernel"
  assumes "run_slot A R config present_tags cmd ks = Inr ks'"
  shows "algorithm ks' = algorithm ks"
proof -
  from assms obtain st resolved and ks1 :: "('s, 'r) kernel" where
    c: "classify config (rssi_map present_tags) (responding_tags cmd present_tags)
          (ks \<lparr> total_slots := total_slots ks + 1 \<rparr>) = Inr (st, resolved, ks1)"
    and "algorithm ks' = algorithm ks1"
    by (auto simp: run_slot_def split: sum.splits)
  with classify_algorithm [OF c] show ?thesis by simp
qed

lemma run_loop_algorithm_invariant:
  assumes "\<And>a prev cmd a'. P a \<Longrightarrow> alg_get_next_command A a prev = Inr (cmd, a') \<Longrightarrow> P a'"
    and "P (algorithm ks)" and "run_loop A R config present_tags ks = Inr ks'"
  shows "P (algorithm ks')"
  using assms
proof (induction A R config present_tags ks rule: run_loop.induct)
  case (1 A R config present_tags ks)
  note step = "1.prems"(1) and P = "1.prems"(2) and run = "1.prems"(3)
  show ?case
  proof (cases "alg_is_finished A (algorithm ks) \<or> total_slots ks > MAX_SLOTS_LIMIT")
    case True
    from run True P show ?thesis
      by (subst (asm) run_loop.simps) (auto split: if_splits)
  next
    case False
    from run False obtain cmd a' where
      cmd: "alg_get_next_command A (algorithm ks) (prev_result ks) = Inr (cmd, a')"
      by (subst (asm) run_loop.simps) (auto split: sum.splits)
    from step [OF P cmd] have P': "P a'" .
    show ?thesis
    proof (cases "payload_bits cmd < 0")
      case True
      from run False cmd True P' show ?thesis
        by (subst (asm) run_loop.simps) auto
    next
      case nonneg: False
      from run False cmd nonneg obtain ks2 where
        sl: "run_slot A R config present_tags cmd (ks \<lparr> algorithm := a' \<rparr>) = Inr ks2"
        and rest: "run_loop A R config present_tags ks2 = Inr ks'"
        by (subst (asm) run_loop.simps) (auto split: sum.splits)
      from run_slot_algorithm [OF sl] P' have "P (algorithm ks2)" by simp
      with "1.IH" [of "(cmd, a')" cmd a' ks2] False cmd nonneg sl rest step show ?thesis
        by simp
    qed
  qed
qed

lemma get_next_command_keeps_tags:
  assumes "get_next_command s prev = Inr (cmd, s')"
  shows "sorted_tags_bin s' = sorted_tags_bin s"
proof -
  from assms obtain s1 f where va: "verify_and_adapt s prev = Inr (s1, f)"
    by (cases "verify_and_adapt s prev") (auto simp: get_next_command_def)
  show ?thesis
  proof (cases "cursor s1 \<ge> total_tags s1")
    case True
    with assms va have "s' = s1 \<lparr> is_running := False \<rparr>"
      by (simp add: get_next_command_def)
    with verify_and_adapt_keeps(1) [OF va] show ?thesis by simp
  next
    case False
    with assms va have "schedule s1 f = Inr (cmd, s')"
      by (simp add: get_next_command_def)
    with schedule_keeps(1) verify_and_adapt_keeps(1) [OF va] show ?thesis by simp
  qed
qed

lemma run_inv_initialize:
  "distinct (map epc tags) \<Longrightarrow> run_inv tags (initialize s0 tags)"
  by (simp add: run_inv_def partition_inv_initialize initialize_fields image_image)

lemma run_inv_step:
  assumes "run_inv tags s" and "get_next_command s prev = Inr (cmd, s')"
  shows "run_inv tags s'"
proof -
  from assms(1) have "partition_inv s" by (simp add: run_inv_def)
  from partition_inv_step [OF this assms(2)] have "partition_inv s'" .
  moreover from assms have "e_hex ` set (sorted_tags_bin s') = epc ` set tags"
    by (simp add: run_inv_def get_next_command_keeps_tags)
  ultimately show ?thesis by (simp add: run_inv_def)
qed

lemma run_inv_drive:
  "run_inv tags s \<Longrightarrow> drive s results = Inr s' \<Longrightarrow> run_inv tags s'"
proof (induction results arbitrary: s)
  case Nil
  then show ?case by simp
next
  case (Cons r rs)
  from Cons.prems(2) obtain cmd s1 where "get_next_command s r = Inr (cmd, s1)"
    and "drive s1 rs = Inr s'"
    by (cases "get_next_command s r") auto
  with Cons.IH run_inv_step [OF Cons.prems(1)] show ?case by blast
qed

lemma run_inv_partition:
  assumes "run_inv tags s"
  shows "fst (get_results s) \<inter> snd (get_results s) = {}
         \<and> (is_finished s \<longrightarrow> fst (get_results s) \<union> snd (get_results s) = set (map epc tags))"
  using assms partition_inv_complete [of s] by (simp add: run_inv_def get_results_def)

text \<open>
  Claim C1. Take any expected population with pairwise distinct identifiers and run the
  flagship protocol on it, either by feeding it an arbitrary sequence of slot results or
  under the simulation kernel with any configuration, ground truth and random source.
  In every state reached the two result sets are disjoint, and once \<open>is_finished\<close>
  holds their union is the set of all expected identifiers.
\<close>

theorem partition_invariant:
  assumes "distinct (map epc expected_tags)"
  shows "(drive (initialize s0 expected_tags) results = Inr s \<longrightarrow>
            fst (get_results s) \<inter> snd (get_results s) = {}
            \<and> (is_finished s \<longrightarrow>
                  fst (get_results s) \<union> snd (get_results s) = set (map epc expected_tags)))
       \<and> (run_high_fidelity_simulation LODS R config true_tags (initialize s0 expected_tags) r
            = Inr ks \<longrightarrow>
            fst (get_results (algorithm ks)) \<inter> snd (get_results (algorithm ks)) = {}
            \<and> (is_finished (algorithm ks) \<longrightarrow>
                  fst (get_results (algorithm ks)) \<union> snd (get_results (algorithm ks))
                    = set (map epc expected_tags)))"
proof (intro conjI impI)
  note init = run_inv_initialize [OF assms, of s0]
  {
    assume "drive (initialize s0 expected_tags) results = Inr s"
    from run_inv_drive [OF init this] have inv: "run_inv expected_tags s" .
    from run_inv_partition [OF inv]
    show "fst (get_results s) \<inter> snd (get_results s) = {}" by blast
    assume "is_finished s"
    with run_inv_partition [OF inv]
    show "fst (get_results s) \<union> snd (get_results s) = set (map epc expected_tags)" by blast
  }
  {
    assume run: "run_high_fidelity_simulation LODS R config true_tags (initialize s0 expected_tags) r
            = Inr ks"
    have "run_inv expected_tags (algorithm ks)"
    proof (rule run_loop_algorithm_invariant [where P = "run_inv expected_tags" and A = LODS])
      show "run_inv expected_tags a'"
        if "run_inv expected_tags a" "alg_get_next_command LODS a prev = Inr (cmd, a')"
        for a prev cmd a'
        using that run_inv_step by (simp add: LODS_methods)
      show "run_inv expected_tags (algorithm (fresh_kernel (initialize s0 expected_tags) r))"
        using init by (simp add: fresh_kernel_def)
      show "run_loop LODS R config (filter is_present true_tags)
              (fresh_kernel (initialize s0 expected_tags) r) = Inr ks"
        using run by (simp add: run_high_fidelity_simulation_def)
    qed
    from run_inv_partition [OF this]
    show "fst (get_results (algorithm ks)) \<inter> snd (get_results (algorithm ks)) = {}" by blast
    assume "is_finished (algorithm ks)"
    with run_inv_partition [OF \<open>run_inv expected_tags (algorithm ks)\<close>]
    show "fst (get_results (algorithm ks)) \<union> snd (get_results (algorithm ks))
                    = set (map epc expected_tags)" by blast
  }
qed

text \<open>
  The two-tag run, under the driver and under the kernel.
\<close>

theorem partition_invariant_witness:
  "distinct (map epc [tag1, tag2]) \<and>
   drive (initialize flagship [tag1, tag2]) [initial_result, tag1_replies] = Inr two_tags_done \<and>
   run_high_fidelity_simulation LODS no_random ideal_config [tag1, tag2]
     (initialize flagship [tag1, tag2]) () = Inr two_tags_run \<and>
   is_finished two_tags_done \<and> is_finished (algorithm two_tags_run) \<and>
   fst (get_results two_tags_done) \<inter> snd (get_results two_tags_done) = {} \<and>
   fst (get_results two_tags_done) \<union> snd (get_results two_tags_done) = set (map epc [tag1, tag2]) \<and>
   fst (get_results (algorithm two_tags_run)) \<union> snd (get_results (algorithm two_tags_run))
     = set (map epc [tag1, tag2])"
proof -
  have d: "distinct (map epc [tag1, tag2])"
    by (simp add: tag1_def tag2_def)
  have fin: "is_finished two_tags_done" "is_finished (algorithm two_tags_run)"
    by (simp_all add: is_finished_def two_tags_done_def two_tags_run_def)
  from partition_invariant [OF d, of flagship "[initial_result, tag1_replies]" two_tags_done
         no_random ideal_config "[tag1, tag2]" "()" two_tags_run]
    two_tags_drive two_tags_kernel fin d
  show ?thesis by blast
qed

section \<open>Correctness on a clean channel\<close>

lemma classify_status:
  "classify config rmap responders ks = Inr (st, resolved, ks1)
   \<Longrightarrow> (st = IDLE \<longleftrightarrow> responders = [])"
  by (auto simp: classify_def split: if_splits sum.splits option.splits)

lemma impair_quiet:
  assumes "\<not> ENABLE_NOISE config" and "CLOCK_DRIFT_RATE config = 0"
    and "BURST_ERASURE_LEN config = 0" and "JITTER_OFFSET config = 0"
  shows "impair A R config cmd st resolved r = Inr (st, resolved, 0, None, r)"
  using assms by (simp add: impair_def drift_flips_def Let_def)

lemma run_slot_quiet:
  fixes ks ks' :: "('s, 'r) kernel"
  assumes quiet: "\<not> ENABLE_NOISE config" "CLOCK_DRIFT_RATE config = 0"
      "BURST_ERASURE_LEN config = 0" "JITTER_OFFSET config = 0"
    and run: "run_slot A R config present_tags cmd ks = Inr ks'"
  shows "channel_noise_mask (prev_result ks') = 0"
    and "actual_responders_set (prev_result ks') = set (responding_tags cmd present_tags)"
proof -
  let ?resp = "responding_tags cmd present_tags"
  from run obtain st resolved and ks1 :: "('s, 'r) kernel" where
    c: "classify config (rssi_map present_tags) ?resp
          (ks \<lparr> total_slots := total_slots ks + 1 \<rparr>) = Inr (st, resolved, ks1)"
    by (auto simp: run_slot_def split: sum.splits)
  from run c impair_quiet [OF quiet, of A R cmd st resolved "rng ks1"]
  have pr: "prev_result ks' =
              \<lparr> status = st, tag_ids = ?resp, resolved_data = resolved,
                channel_noise_mask = 0, extra_info = None \<rparr>"
    by (auto simp: run_slot_def)
  then show "channel_noise_mask (prev_result ks') = 0" by simp
  from classify_status [OF c] pr
  show "actual_responders_set (prev_result ks') = set ?resp"
    by (auto simp: actual_responders_set_def)
qed

lemma vote_threshold_bounds:
  assumes "ctx \<noteq> []" and "\<forall>it\<in>set ctx. c_rho it = rho" and "1 \<le> rho"
  shows "1 \<le> vote_threshold ctx \<and> vote_threshold ctx \<le> rho"
proof -
  from assms(1) have "hd ctx \<in> set ctx" by simp
  with assms(2) have "c_rho (hd ctx) = rho" by blast
  with assms(3) show ?thesis by (simp add: vote_threshold_def)
qed

lemma count_ones_sub_field:
  "0 \<le> c_rho it \<Longrightarrow> int (count_ones (sub_field it)) = c_rho it"
  by (simp add: sub_field_def count_ones_field)

lemma verify_sound:
  assumes G: "sound_inv tags a" and Q: "pending_ok tags a pr"
    and va: "verify_and_adapt a pr = Inr (s1, f)"
  shows "verified_present s1 \<subseteq> present_ids tags"
    and "verified_missing s1 \<inter> present_ids tags = {}"
proof -
  let ?ctx = "last_sent_context a"
  let ?P = "present_ids tags"
  let ?thr = "vote_threshold ?ctx"
  from G have base: "verified_present a \<subseteq> ?P" "verified_missing a \<inter> ?P = {}"
    and pinv: "partition_inv a"
    by (simp_all add: sound_inv_def)
  have "verified_present s1 \<subseteq> ?P \<and> verified_missing s1 \<inter> ?P = {}"
  proof (cases "?ctx = []")
    case True
    with va have "s1 = a" by (simp add: verify_and_adapt_def)
    with base show ?thesis by simp
  next
    case ne: False
    with Q have
      "(\<exists>rho. rho \<noteq> 0 \<and> (\<forall>it\<in>set ?ctx. c_rho it = rho \<and> 0 \<le> c_slot it))
       \<and> distinct (map c_slot ?ctx) \<and> channel_noise_mask pr = 0
       \<and> (\<forall>it\<in>set ?ctx. c_epc it \<in> actual_responders_set pr \<longleftrightarrow> c_epc it \<in> ?P)"
      by (simp add: pending_ok_def)
    then obtain rho where rho0: "rho \<noteq> 0"
      and uni: "\<forall>it\<in>set ?ctx. c_rho it = rho \<and> 0 \<le> c_slot it"
      and dsl: "distinct (map c_slot ?ctx)"
      and nz: "channel_noise_mask pr = 0"
      and resp: "\<forall>it\<in>set ?ctx. c_epc it \<in> actual_responders_set pr \<longleftrightarrow> c_epc it \<in> ?P"
      by (elim conjE exE)
    from verify_and_adapt_sets [OF va] ne have
      "\<exists>x. received_bitmap ?ctx pr = Inr x
         \<and> (\<forall>i\<in>set ?ctx. \<exists>c. match_count x i = Inr c)
         \<and> verified_present s1 = verified_present a \<union> c_epc ` {i \<in> set ?ctx. confirmed x ?thr i}
         \<and> verified_missing s1 = verified_missing a \<union> c_epc ` {i \<in> set ?ctx. \<not> confirmed x ?thr i}"
      by simp
    then obtain x where
      x: "received_bitmap ?ctx pr = Inr x"
      and mc: "\<forall>i\<in>set ?ctx. \<exists>c. match_count x i = Inr c"
      and vp: "verified_present s1 = verified_present a \<union> c_epc ` {i \<in> set ?ctx. confirmed x ?thr i}"
      and vm: "verified_missing s1 = verified_missing a \<union> c_epc ` {i \<in> set ?ctx. \<not> confirmed x ?thr i}"
      by (elim conjE exE)
    from ne have "hd ?ctx \<in> set ?ctx" by simp
    with mc uni obtain c where "match_count x (hd ?ctx) = Inr c" "c_rho (hd ?ctx) = rho"
      by blast
    then obtain m where "expected_mask (c_slot (hd ?ctx)) rho = Inr m"
      by (auto simp: match_count_def split: sum.splits)
    from expected_mask_Inr [OF this] rho0 have rho: "1 \<le> rho" by simp
    then have rho': "0 \<le> rho" by simp
    from pinv have "distinct (map e_hex (sorted_tags_bin a))"
      and "\<exists>past. map e_hex (take (nat (cursor a)) (sorted_tags_bin a)) = past @ map c_epc ?ctx"
      by (simp_all add: partition_inv_def) blast
    then obtain past where
      past: "map e_hex (take (nat (cursor a)) (sorted_tags_bin a)) = past @ map c_epc ?ctx"
      and "distinct (take (nat (cursor a)) (map e_hex (sorted_tags_bin a)))"
      by (auto intro: distinct_take)
    then have "distinct (past @ map c_epc ?ctx)"
      by (simp add: take_map)
    then have dep: "distinct (map c_epc ?ctx)" by simp
    from uni dsl dep have wf: "well_formed_group rho ?ctx"
      by (simp add: well_formed_group_def)
    from vote_threshold_bounds [OF ne _ rho] uni
    have thr: "1 \<le> ?thr" "?thr \<le> rho" by blast+
    have verdict: "confirmed x ?thr it \<longleftrightarrow> c_epc it \<in> ?P" if it: "it \<in> set ?ctx" for it
    proof -
      from uni it have r: "c_rho it = rho" "0 \<le> c_slot it" by blast+
      from received_field [OF wf rho' it, of pr] x nz
      have xf: "x AND sub_field it =
                  (if c_epc it \<in> actual_responders_set pr then sub_field it else 0)"
        by simp
      from match_count_sub_field [of it x] r rho'
      have "match_count x it = Inr (int (count_ones (x AND sub_field it)))" by simp
      then have c: "confirmed x ?thr it \<longleftrightarrow> ?thr \<le> int (count_ones (x AND sub_field it))"
        by (simp add: confirmed_def)
      from count_ones_sub_field [of it] r rho'
      have full: "int (count_ones (sub_field it)) = rho" by simp
      show ?thesis
      proof (cases "c_epc it \<in> actual_responders_set pr")
        case True
        with xf full thr c resp it show ?thesis by simp
      next
        case False
        with xf thr c resp it show ?thesis by simp
      qed
    qed
    from verdict have new: "c_epc ` {i \<in> set ?ctx. confirmed x ?thr i} \<subseteq> ?P"
      "c_epc ` {i \<in> set ?ctx. \<not> confirmed x ?thr i} \<inter> ?P = {}"
      by blast+
    from base(1) new(1) have "verified_present s1 \<subseteq> ?P"
      unfolding vp by (rule Un_least)
    moreover from base(2) new(2) have "verified_missing s1 \<inter> ?P = {}"
      unfolding vm by (simp only: Int_Un_distrib2 Un_empty)
    ultimately show ?thesis ..
  qed
  then show "verified_present s1 \<subseteq> ?P" and "verified_missing s1 \<inter> ?P = {}" by blast+
qed

lemma distinct_epc_unique:
  assumes "distinct (map epc tags)" and "t \<in> set tags" and "t' \<in> set tags"
    and "epc t' = epc t"
  shows "t' = t"
  using assms by (auto simp: distinct_map dest: inj_onD)

lemma initialize_entries:
  assumes "e \<in> set (sorted_tags_bin (initialize s0 tags))"
  obtains t where "t \<in> set tags" and "e_hex e = epc t" and "e_bin e = tag_bin t"
  using assms by (auto simp: initialize_fields)

lemma responders_of_group:
  assumes dist: "distinct (map epc tags)" and t: "t \<in> set tags"
    and pre: "startswith (tag_bin t) m" and rp: "response_protocol cmd = protocol_logic m"
  shows "epc t \<in> set (responding_tags cmd (filter is_present tags))
         \<longleftrightarrow> epc t \<in> present_ids tags"
proof
  assume "epc t \<in> set (responding_tags cmd (filter is_present tags))"
  then show "epc t \<in> present_ids tags"
    by (auto simp: responding_tags_def present_ids_def)
next
  assume "epc t \<in> present_ids tags"
  then obtain t' where t': "t' \<in> set tags" "is_present t'" "epc t' = epc t"
    by (auto simp: present_ids_def)
  from distinct_epc_unique [OF dist t t'(1) t'(3)] t' have "is_present t" by simp
  with t pre rp show "epc t \<in> set (responding_tags cmd (filter is_present tags))"
    by (auto simp: responding_tags_def protocol_logic_def)
qed

lemma schedule_pending:
  assumes G: "sound_inv tags s1" and cur: "cursor s1 < total_tags s1"
    and sch: "schedule s1 f = Inr (cmd, a')"
    and dist: "distinct (map epc tags)"
    and nz: "channel_noise_mask pr = 0"
    and resp: "actual_responders_set pr = set (responding_tags cmd (filter is_present tags))"
  shows "pending_ok tags a' pr"
proof -
  let ?ents = "sorted_tags_bin s1"
  from G have ents: "?ents = sorted_tags_bin (initialize s1 tags)" and pinv: "partition_inv s1"
    by (simp_all add: sound_inv_def)
  from pinv have len: "total_tags s1 = int (length ?ents)" and c0: "0 \<le> cursor s1"
    by (simp_all add: partition_inv_def)
  from ents have srt: "sorted (map e_bin ?ents)"
    using initialize_sorted [of s1 tags] by simp
  from schedule_result [OF len c0 cur sch] obtain k m seed n where
    k0: "0 \<le> k" and kle: "cursor s1 + k \<le> total_tags s1"
    and ctx: "last_sent_context a' = group_context seed n (current_rho s1)
                                       (take (nat k) (drop (nat (cursor s1)) ?ents))"
    and rp: "response_protocol cmd = protocol_logic m"
    and rho0: "current_rho s1 \<noteq> 0"
    and grp: "1 \<le> k \<longrightarrow>
               m = get_lcp (bin_at s1 (cursor s1)) (bin_at s1 (cursor s1 + k - 1)) \<and> 1 \<le> n
               \<and> distinct (map (\<lambda>v. (v XOR seed) mod n)
                     (map e_int (take (nat k) (drop (nat (cursor s1)) ?ents))))"
    by blast
  let ?items = "take (nat k) (drop (nat (cursor s1)) ?ents)"
  show ?thesis
  proof (cases "k = 0")
    case True
    with ctx show ?thesis by (simp add: pending_ok_def group_context_def)
  next
    case False
    with k0 grp have k1: "1 \<le> k"
      and m: "m = get_lcp (bin_at s1 (cursor s1)) (bin_at s1 (cursor s1 + k - 1))"
      and n1: "1 \<le> n"
      and dsl: "distinct (map (\<lambda>v. (v XOR seed) mod n) (map e_int ?items))"
      by simp_all
    have uni: "\<forall>it\<in>set (last_sent_context a'). c_rho it = current_rho s1 \<and> 0 \<le> c_slot it"
      using n1 by (auto simp: ctx group_context_def)
    have ds: "distinct (map c_slot (last_sent_context a'))"
      using dsl by (simp add: ctx group_context_def comp_def)
    have mem: "c_epc it \<in> actual_responders_set pr \<longleftrightarrow> c_epc it \<in> present_ids tags"
      if it: "it \<in> set (last_sent_context a')" for it
    proof -
      from it obtain e where e: "e \<in> set ?items" and ce: "c_epc it = e_hex e"
        by (auto simp: ctx group_context_def)
      from e obtain j where j: "j < length ?items" and ej: "e = ?items ! j"
        by (auto simp: in_set_conv_nth)
      from j have jk: "j < nat k" and "j < length ?ents - nat (cursor s1)"
        by simp_all
      then have jl: "nat (cursor s1) + j < length ?ents" by linarith
      from jl have "nat (cursor s1) \<le> length ?ents" by simp
      with j ej have ej': "e = ?ents ! (nat (cursor s1) + j)" by simp
      with c0 have bin: "e_bin e = bin_at s1 (cursor s1 + int j)"
        by (simp add: bin_at_def nat_add_distrib)
      from jk k1 have "cursor s1 + int j \<le> cursor s1 + k - 1" by linarith
      moreover from kle len have "cursor s1 + k - 1 < int (length ?ents)" by simp
      ultimately have "startswith (bin_at s1 (cursor s1 + int j)) m"
        unfolding m using srt c0 by (intro group_has_prefix) simp_all
      with bin have pre: "startswith (e_bin e) m" by simp
      from ej' jl have "e \<in> set ?ents" by simp
      with ents have "e \<in> set (sorted_tags_bin (initialize s1 tags))" by simp
      then obtain t where t: "t \<in> set tags" "e_hex e = epc t" "e_bin e = tag_bin t"
        by (rule initialize_entries)
      from responders_of_group [OF dist t(1) _ rp] pre t ce resp show ?thesis by simp
    qed
    from rho0 uni ds nz mem show ?thesis
      unfolding pending_ok_def by blast
  qed
qed

lemma sound_inv_step:
  assumes G: "sound_inv tags a" and Q: "pending_ok tags a pr"
    and step: "get_next_command a pr = Inr (cmd, a')"
  shows "sound_inv tags a'"
proof -
  from step obtain s1 f where va: "verify_and_adapt a pr = Inr (s1, f)"
    and sets: "verified_present a' = verified_present s1" "verified_missing a' = verified_missing s1"
    by (rule get_next_command_sets)
  from G have "partition_inv a" by (simp add: sound_inv_def)
  from partition_inv_step [OF this step] have "partition_inv a'" .
  moreover from G get_next_command_keeps_tags [OF step]
  have "sorted_tags_bin a' = sorted_tags_bin (initialize a' tags)"
    by (simp add: sound_inv_def initialize_fields)
  moreover note verify_sound [OF G Q va]
  ultimately show ?thesis using sets by (simp add: sound_inv_def)
qed

lemma pending_ok_step:
  fixes ks2 :: "(lods, 'r) kernel"
  assumes G: "sound_inv tags a" and Q: "pending_ok tags a pr"
    and step: "get_next_command a pr = Inr (cmd, a')"
    and nonneg: "\<not> payload_bits cmd < 0"
    and dist: "distinct (map epc tags)"
    and quiet: "\<not> ENABLE_NOISE config" "CLOCK_DRIFT_RATE config = 0"
      "BURST_ERASURE_LEN config = 0" "JITTER_OFFSET config = 0"
    and sl: "run_slot A R config (filter is_present tags) cmd ks = Inr ks2"
  shows "pending_ok tags a' (prev_result ks2)"
proof -
  from step obtain s1 f where va: "verify_and_adapt a pr = Inr (s1, f)"
    by (rule get_next_command_sets)
  from G have pinv: "partition_inv a" by (simp add: sound_inv_def)
  have G1: "sound_inv tags s1"
    using G verify_sound [OF G Q va] partition_inv_verify [OF pinv va]
      verify_and_adapt_keeps(1) [OF va]
    by (simp add: sound_inv_def initialize_fields)
  show ?thesis
  proof (cases "cursor s1 \<ge> total_tags s1")
    case True
    with step va have "payload_bits cmd = - 1"
      by (auto simp: get_next_command_def)
    with nonneg show ?thesis by simp
  next
    case False
    with step va have sch: "schedule s1 f = Inr (cmd, a')"
      by (simp add: get_next_command_def)
    from False have cur: "cursor s1 < total_tags s1" by simp
    from schedule_pending [OF G1 cur sch dist run_slot_quiet [OF quiet sl]]
    show ?thesis .
  qed
qed

lemma run_loop_sound:
  fixes ks ks' :: "(lods, 'r) kernel"
  assumes "distinct (map epc tags)"
    and "\<not> ENABLE_NOISE config" "CLOCK_DRIFT_RATE config = 0"
      "BURST_ERASURE_LEN config = 0" "JITTER_OFFSET config = 0"
    and "A = LODS" and "present_tags = filter is_present tags"
    and "sound_inv tags (algorithm ks)" and "pending_ok tags (algorithm ks) (prev_result ks)"
    and "run_loop A R config present_tags ks = Inr ks'"
  shows "sound_inv tags (algorithm ks')"
  using assms
proof (induction A R config present_tags ks rule: run_loop.induct)
  case (1 A R config present_tags ks)
  note dist = "1.prems"(1) and quiet = "1.prems"(2-5) and A = "1.prems"(6)
    and pt = "1.prems"(7) and G = "1.prems"(8) and Q = "1.prems"(9) and run = "1.prems"(10)
  show ?case
  proof (cases "alg_is_finished A (algorithm ks) \<or> total_slots ks > MAX_SLOTS_LIMIT")
    case True
    from run True G show ?thesis
      by (subst (asm) run_loop.simps) (auto split: if_splits)
  next
    case False
    from run False obtain cmd a' where
      cmd: "alg_get_next_command A (algorithm ks) (prev_result ks) = Inr (cmd, a')"
      by (subst (asm) run_loop.simps) (auto split: sum.splits)
    with A have step: "get_next_command (algorithm ks) (prev_result ks) = Inr (cmd, a')"
      by (simp add: LODS_methods)
    from sound_inv_step [OF G Q step] have G': "sound_inv tags a'" .
    show ?thesis
    proof (cases "payload_bits cmd < 0")
      case True
      from run False cmd True G' show ?thesis
        by (subst (asm) run_loop.simps) auto
    next
      case nonneg: False
      from run False cmd nonneg obtain ks2 where
        sl: "run_slot A R config present_tags cmd (ks \<lparr> algorithm := a' \<rparr>) = Inr ks2"
        and rest: "run_loop A R config present_tags ks2 = Inr ks'"
        by (subst (asm) run_loop.simps) (auto split: sum.splits)
      from run_slot_algorithm [OF sl] have alg2: "algorithm ks2 = a'" by simp
      from sl pt have sl': "run_slot A R config (filter is_present tags) cmd (ks \<lparr> algorithm := a' \<rparr>) = Inr ks2"
        by simp
      from pending_ok_step [OF G Q step nonneg dist quiet sl']
      have Q2: "pending_ok tags (algorithm ks2) (prev_result ks2)" using alg2 by simp
      from G' alg2 have G2: "sound_inv tags (algorithm ks2)" by simp
      from "1.IH" [of "(cmd, a')" cmd a' ks2] False cmd nonneg sl rest dist quiet A pt G2 Q2
      show ?thesis by simp
    qed
  qed
qed

lemma sound_inv_complete:
  assumes dist: "distinct (map epc tags)" and G: "sound_inv tags a" and fin: "is_finished a"
  shows "verified_present a = epc ` {t \<in> set tags. is_present t}"
    and "verified_missing a = epc ` {t \<in> set tags. \<not> is_present t}"
proof -
  let ?P = "present_ids tags"
  from G have pinv: "partition_inv a" and sub: "verified_present a \<subseteq> ?P"
    and mis: "verified_missing a \<inter> ?P = {}"
    and ents: "sorted_tags_bin a = sorted_tags_bin (initialize a tags)"
    by (simp_all add: sound_inv_def)
  from partition_inv_complete [OF pinv] fin ents
  have un: "verified_present a \<union> verified_missing a = epc ` set tags"
    by (simp add: initialize_fields image_image)
  have P: "?P = epc ` {t \<in> set tags. is_present t}"
    by (auto simp: present_ids_def)
  have absent: "epc t \<notin> ?P" if "t \<in> set tags" "\<not> is_present t" for t
  proof
    assume "epc t \<in> ?P"
    then obtain t' where t': "t' \<in> set tags" "is_present t'" "epc t' = epc t"
      by (auto simp: present_ids_def)
    from distinct_epc_unique [OF dist that(1) t'(1) t'(3)] t'(2) that(2) show False by simp
  qed
  have "?P \<subseteq> epc ` set tags" by (auto simp: present_ids_def)
  with un mis have "?P \<subseteq> verified_present a" by blast
  with sub have "verified_present a = ?P" by blast
  with P show "verified_present a = epc ` {t \<in> set tags. is_present t}" by simp
  show "verified_missing a = epc ` {t \<in> set tags. \<not> is_present t}"
  proof (intro equalityI subsetI)
    fix x assume x: "x \<in> verified_missing a"
    with un obtain t where t: "t \<in> set tags" "x = epc t" by blast
    from x mis have "x \<notin> ?P" by blast
    with t have "\<not> is_present t" by (auto simp: present_ids_def)
    with t show "x \<in> epc ` {t \<in> set tags. \<not> is_present t}" by blast
  next
    fix x assume "x \<in> epc ` {t \<in> set tags. \<not> is_present t}"
    then obtain t where t: "t \<in> set tags" "\<not> is_present t" "x = epc t" by blast
    from absent [OF t(1,2)] sub have "epc t \<notin> verified_present a" by blast
    moreover from t(1) un have "epc t \<in> verified_present a \<union> verified_missing a" by blast
    ultimately show "x \<in> verified_missing a" using t(3) by blast
  qed
qed

text \<open>
  Claim C2. Take a population with pairwise distinct identifiers, each tag in the field
  or not, and run the flagship protocol on it under the kernel with noise disabled (so
  that neither the packet error rate nor the bit error rate is read), clock drift rate
  0, burst erasure length 0 and jitter offset 0, with any random source and any setting
  of the capture effect. If the run returns with the protocol finished, the tags
  confirmed present are exactly the tags in the field and the tags confirmed missing
  are exactly the others.
\<close>

theorem noise_free_correctness:
  assumes "distinct (map epc tags)"
    and "\<not> ENABLE_NOISE config" and "CLOCK_DRIFT_RATE config = 0"
    and "BURST_ERASURE_LEN config = 0" and "JITTER_OFFSET config = 0"
    and "run_high_fidelity_simulation LODS R config tags (initialize s0 tags) r = Inr ks"
    and "is_finished (algorithm ks)"
  shows "fst (get_results (algorithm ks)) = epc ` {t \<in> set tags. is_present t}
       \<and> snd (get_results (algorithm ks)) = epc ` {t \<in> set tags. \<not> is_present t}"
proof -
  let ?a0 = "initialize s0 tags"
  have G0: "sound_inv tags (algorithm (fresh_kernel ?a0 r))"
    using partition_inv_initialize [OF assms(1), of s0]
    by (simp add: sound_inv_def fresh_kernel_def initialize_fields)
  have Q0: "pending_ok tags (algorithm (fresh_kernel ?a0 r)) (prev_result (fresh_kernel ?a0 r))"
    by (simp add: pending_ok_def fresh_kernel_def initialize_fields)
  from assms(6) have run: "run_loop LODS R config (filter is_present tags) (fresh_kernel ?a0 r) = Inr ks"
    by (simp add: run_high_fidelity_simulation_def)
  from run_loop_sound [OF assms(1-5) refl refl G0 Q0 run]
  have "sound_inv tags (algorithm ks)" .
  from sound_inv_complete [OF assms(1) this assms(7)] show ?thesis
    by (simp add: get_results_def)
qed

text \<open>
  The two-tag run under the kernel: \<open>tag1\<close> is found present and \<open>tag2\<close> missing.
\<close>

theorem noise_free_correctness_witness:
  "distinct (map epc [tag1, tag2]) \<and> \<not> ENABLE_NOISE ideal_config
   \<and> CLOCK_DRIFT_RATE ideal_config = 0 \<and> BURST_ERASURE_LEN ideal_config = 0
   \<and> JITTER_OFFSET ideal_config = 0
   \<and> run_high_fidelity_simulation LODS no_random ideal_config [tag1, tag2]
        (initialize flagship [tag1, tag2]) () = Inr two_tags_run
   \<and> is_finished (algorithm two_tags_run)
   \<and> is_present tag1 \<and> \<not> is_present tag2
   \<and> fst (get_results (algorithm two_tags_run)) = {epc tag1}
   \<and> snd (get_results (algorithm two_tags_run)) = {epc tag2}"
proof -
  have d: "distinct (map epc [tag1, tag2])"
    by (simp add: tag1_def tag2_def)
  have q: "\<not> ENABLE_NOISE ideal_config" "CLOCK_DRIFT_RATE ideal_config = 0"
    "BURST_ERASURE_LEN ideal_config = 0" "JITTER_OFFSET ideal_config = 0"
    by (simp_all add: ideal_config_def)
  have fin: "is_finished (algorithm two_tags_run)"
    by (simp add: is_finished_def two_tags_done_def two_tags_run_def)
  have p: "is_present tag1" "\<not> is_present tag2"
    by (simp_all add: tag1_def tag2_def)
  then have "{t \<in> set [tag1, tag2]. is_present t} = {tag1}"
    and "{t \<in> set [tag1, tag2]. \<not> is_present t} = {tag2}"
    by auto
  with noise_free_correctness [OF d q two_tags_kernel fin]
  have "fst (get_results (algorithm two_tags_run)) = {epc tag1}"
    and "snd (get_results (algorithm two_tags_run)) = {epc tag2}"
    by simp_all
  with d q two_tags_kernel fin p show ?thesis by blast
qed

end
